theory Spec2Isabelle
  imports Main "HOL-Library.Monad_Syntax"
begin

section \<open>Memory, C strings and the platform's text services\<close>

text \<open>
  The functions of \<^verbatim>\<open>src/bfstd.c\<close> that quote a word for the shell work on
  \<^verbatim>\<open>char\<close> pointers. A byte is a \<^typ>\<open>char\<close>; memory maps addresses to bytes.
  A \<^verbatim>\<open>const char *\<close> argument is modelled by the bytes found from the pointer
  onwards: \<open>p k\<close> is \<^verbatim>\<open>p[k]\<close>, for every \<open>k\<close>, so a read past a string's
  terminator is a read of whatever byte lies there. The destination buffer is delimited
  by two addresses \<^verbatim>\<open>dest\<close> and \<^verbatim>\<open>end\<close> into a memory; a cursor pairs the
  memory with the current \<^verbatim>\<open>dest\<close>. Sizes are natural numbers: objects are smaller
  than \<^verbatim>\<open>SIZE_MAX\<close>, so no \<^verbatim>\<open>size_t\<close> sum of the code wraps on them.
\<close>

type_synonym memory = "nat \<Rightarrow> char"
type_synonym cptr = "nat \<Rightarrow> char"
type_synonym cursor = "memory \<times> nat"

abbreviation NUL :: char where "NUL \<equiv> CHR 0x00"
abbreviation SQ :: char where "SQ \<equiv> CHR 0x27"
abbreviation DQ :: char where "DQ \<equiv> CHR 0x22"
abbreviation BSL :: char where "BSL \<equiv> CHR 0x5C"

definition SIZE_MAX :: nat where
  "SIZE_MAX = 2 ^ 64 - 1"

definition ptr_add :: "cptr \<Rightarrow> nat \<Rightarrow> cptr" where
  "ptr_add p k = (\<lambda>j. p (k + j))"

text \<open>A string literal, as the array the compiler lays out: its bytes, then zeros.\<close>

definition cstr :: "string \<Rightarrow> cptr" where
  "cstr s = (\<lambda>k. if k < length s then s ! k else NUL)"

text \<open>The first \<open>n\<close> bytes at a pointer.\<close>

fun bytes :: "cptr \<Rightarrow> nat \<Rightarrow> string" where
  "bytes p n = (if n = 0 then [] else p 0 # bytes (ptr_add p 1) (n - 1))"

declare bytes.simps [simp del]

definition peek :: "memory \<Rightarrow> nat \<Rightarrow> nat \<Rightarrow> string" where
  "peek m a n = bytes (ptr_add m a) n"

subsection \<open>libc: strnlen, strcspn, memcpy\<close>

function strnlen_from :: "cptr \<Rightarrow> nat \<Rightarrow> nat \<Rightarrow> nat" where
  "strnlen_from s n k = (if k < n \<and> s k \<noteq> NUL then strnlen_from s n (Suc k) else k)"
  by pat_completeness auto
termination
  by (relation "measure (\<lambda>(s, n, k). n - k)") auto

declare strnlen_from.simps [simp del]

definition strnlen :: "cptr \<Rightarrow> nat \<Rightarrow> nat" where
  "strnlen s n = strnlen_from s n 0"

text \<open>
  \<^verbatim>\<open>strcspn\<close> has no bound: it scans until a byte of the reject set or the terminator.
  On bytes that hold neither it does not return, which is the value \<open>None\<close>.
\<close>

partial_function (option) strcspn_from :: "cptr \<Rightarrow> string \<Rightarrow> nat \<Rightarrow> nat option" where
  "strcspn_from s reject k =
     (if s k = NUL \<or> s k \<in> set reject then Some k else strcspn_from s reject (Suc k))"

definition strcspn :: "cptr \<Rightarrow> string \<Rightarrow> nat option" where
  "strcspn s reject = strcspn_from s reject 0"

definition memcpy :: "memory \<Rightarrow> nat \<Rightarrow> cptr \<Rightarrow> nat \<Rightarrow> memory" where
  "memcpy m dest src n = (\<lambda>a. if dest \<le> a \<and> a < dest + n then src (a - dest) else m a)"

subsection \<open>The locale: multibyte decoder and character classes\<close>

text \<open>
  \<^verbatim>\<open>mbrtowc\<close>, \<^verbatim>\<open>isprint\<close>, \<^verbatim>\<open>isspace\<close>, \<^verbatim>\<open>iswprint\<close> and \<^verbatim>\<open>iswspace\<close>
  belong to the platform and depend on the process locale, so they are parameters.
  \<^verbatim>\<open>mbrtowc(&wc, s, n, &mb)\<close> sees the \<open>n\<close> bytes at \<open>s\<close> and the conversion state; it
  answers \<^verbatim>\<open>(size_t)-1\<close> (invalid), \<^verbatim>\<open>(size_t)-2\<close> (incomplete), or stores a wide
  character and answers the number of bytes it took, which is 0 for the null wide
  character. \<open>mb_zero\<close> is the state \<^verbatim>\<open>memset(&mb, 0, sizeof(mb))\<close> leaves.
\<close>

datatype mbresult = MB_INVALID | MB_INCOMPLETE | MB_OK nat nat

record 's clocale =
  mbrtowc :: "string \<Rightarrow> 's \<Rightarrow> mbresult \<times> 's"
  mb_zero :: 's
  isprint :: "char \<Rightarrow> bool"
  isspace :: "char \<Rightarrow> bool"
  iswprint :: "nat \<Rightarrow> bool"
  iswspace :: "nat \<Rightarrow> bool"

definition isascii :: "char \<Rightarrow> bool" where
  "isascii c = ((of_char c :: nat) < 128)"

section \<open>The bounded writer\<close>

text \<open>
  \<^verbatim>\<open>
  char *xstpencpy(char *dest, char *end, const char *src, size_t n) {
      size_t space = end - dest;
      n = space < n ? space : n;
      n = strnlen(src, n);
      memcpy(dest, src, n);
      if (n < space) { dest[n] = '\0'; return dest + n; }
      else { end[-1] = '\0'; return end; }
  }
  \<close>
  The pointer difference is converted to \<^verbatim>\<open>size_t\<close>, so it wraps when \<^verbatim>\<open>dest\<close>
  lies beyond \<^verbatim>\<open>end\<close>.
\<close>

definition xstpencpy :: "cursor \<Rightarrow> nat \<Rightarrow> cptr \<Rightarrow> nat \<Rightarrow> cursor" where
  "xstpencpy st end src n =
     (case st of (m, dest) \<Rightarrow>
        let space = (if dest \<le> end then end - dest else SIZE_MAX + 1 - (dest - end));
            n1 = (if space < n then space else n);
            n2 = strnlen src n1;
            m1 = memcpy m dest src n2
        in if n2 < space then (m1(dest + n2 := NUL), dest + n2)
           else (m1(end - 1 := NUL), end))"

definition xstpecpy :: "cursor \<Rightarrow> nat \<Rightarrow> cptr \<Rightarrow> cursor" where
  "xstpecpy st end src = xstpencpy st end src SIZE_MAX"

section \<open>The character classifier\<close>

text \<open>
  \<^verbatim>\<open>xmbrtowc(&wc, &i, str, len, &mb)\<close> returns 0 and stores \<open>wc\<close>, or returns -1.
  The model returns \<open>Some wc\<close> or \<open>None\<close>, with the updated offset and state.
\<close>

definition xmbrtowc :: "'s clocale \<Rightarrow> nat \<Rightarrow> cptr \<Rightarrow> nat \<Rightarrow> 's \<Rightarrow> nat option \<times> nat \<times> 's" where
  "xmbrtowc L i str len mb =
     (case mbrtowc L (bytes (ptr_add str i) (len - i)) mb of
        (MB_INVALID, mb1) \<Rightarrow> (None, i + 1, mb_zero L)
      | (MB_INCOMPLETE, mb1) \<Rightarrow> (None, i + len, mb1)
      | (MB_OK wc mblen, mb1) \<Rightarrow> (Some wc, i + mblen, mb1))"

text \<open>
  The flags argument is only ever tested as \<^verbatim>\<open>flags & WESC_SHELL\<close>; the
  parameter \<open>shell\<close> is the truth value of that test, whatever the values that the
  enumeration \<^verbatim>\<open>wesc_flags\<close> gives its members.
\<close>

definition xisprint :: "'s clocale \<Rightarrow> char \<Rightarrow> bool \<Rightarrow> bool" where
  "xisprint L c shell =
     (if isprint L c then True
      else if \<not> shell \<and> isspace L c then True
      else False)"

definition xiswprint :: "'s clocale \<Rightarrow> nat \<Rightarrow> bool \<Rightarrow> bool" where
  "xiswprint L c shell =
     (if iswprint L c then True
      else if \<not> shell \<and> iswspace L c then True
      else False)"

section \<open>The scan predicates\<close>

text \<open>
  The fast path of \<^verbatim>\<open>printable_len\<close>: the result is \<open>(True, i)\<close> when the loop
  executes \<^verbatim>\<open>return i\<close>, and \<open>(False, i)\<close> when it is left by \<^verbatim>\<open>break\<close> or by its
  condition.
\<close>

function printable_ascii :: "'s clocale \<Rightarrow> cptr \<Rightarrow> nat \<Rightarrow> bool \<Rightarrow> nat \<Rightarrow> bool \<times> nat" where
  "printable_ascii L str len shell i =
     (if i < len then
        (if \<not> isascii (str i) then (False, i)
         else if \<not> xisprint L (str i) shell then (True, i)
         else printable_ascii L str len shell (Suc i))
      else (False, i))"
  by pat_completeness auto
termination
  by (relation "measure (\<lambda>(L, str, len, shell, i). len - i)") auto

declare printable_ascii.simps [simp del]

text \<open>The multibyte loop: it returns the offset as \<^verbatim>\<open>xmbrtowc\<close> left it.\<close>

partial_function (option) printable_mb ::
  "'s clocale \<Rightarrow> cptr \<Rightarrow> nat \<Rightarrow> bool \<Rightarrow> nat \<Rightarrow> 's \<Rightarrow> nat option" where
  "printable_mb L str len shell i mb =
     (if i < len then
        (case xmbrtowc L i str len mb of
           (None, i1, mb1) \<Rightarrow> Some i1
         | (Some wc, i1, mb1) \<Rightarrow>
             if \<not> xiswprint L wc shell then Some i1
             else printable_mb L str len shell i1 mb1)
      else Some i)"

definition printable_len :: "'s clocale \<Rightarrow> cptr \<Rightarrow> nat \<Rightarrow> bool \<Rightarrow> nat option" where
  "printable_len L str len shell =
     (case printable_ascii L str len shell 0 of
        (True, i) \<Rightarrow> Some i
      | (False, i) \<Rightarrow> printable_mb L str len shell i (mb_zero L))"

text \<open>
  The reject set of \<^verbatim>\<open>bare_len\<close>, byte for byte as the source file has it. Between
  \<^verbatim>\<open>#\<close> and \<^verbatim>\<open>=\<close> the file holds the two bytes 0xCB 0x9C, the UTF-8 encoding of
  U+02DC SMALL TILDE, and not the byte 0x7E of the ASCII tilde.
\<close>

definition bare_reject :: string where
  "bare_reject = [CHR ''|'', CHR ''&'', CHR '';'', CHR ''<'', CHR ''>'', CHR ''('', CHR '')'',
     CHR ''$'', CHR ''`'', BSL, DQ, SQ, CHR '' '', CHR ''*'', CHR ''?'', CHR ''['', CHR ''#'',
     CHR 0xCB, CHR 0x9C, CHR ''='', CHR ''%'', CHR ''!'']"

definition bare_len :: "cptr \<Rightarrow> nat \<Rightarrow> nat option" where
  "bare_len str len = do {
     ret \<leftarrow> strcspn str bare_reject;
     Some (if ret < len then ret else len) }"

definition quotable_reject :: string where
  "quotable_reject = [CHR ''`'', CHR ''$'', BSL, DQ, CHR ''!'']"

definition quotable_len :: "cptr \<Rightarrow> nat \<Rightarrow> nat option" where
  "quotable_len str len = do {
     ret \<leftarrow> strcspn str quotable_reject;
     Some (if ret < len then ret else len) }"

section \<open>The quote emitters\<close>

text \<open>
  \<^verbatim>\<open>dollar_esc\<close>: the named escape of a byte, or \<^verbatim>\<open>NULL\<close>. The cases are, in the
  source's order, \<^verbatim>\<open>\a \b \033 \f \n \r \t \v ' \\<close>.
\<close>

definition dollar_esc :: "char \<Rightarrow> cptr option" where
  "dollar_esc c =
     (if c = CHR 0x07 then Some (cstr [BSL, CHR ''a''])
      else if c = CHR 0x08 then Some (cstr [BSL, CHR ''b''])
      else if c = CHR 0x1B then Some (cstr [BSL, CHR ''e''])
      else if c = CHR 0x0C then Some (cstr [BSL, CHR ''f''])
      else if c = CHR 0x0A then Some (cstr [BSL, CHR ''n''])
      else if c = CHR 0x0D then Some (cstr [BSL, CHR ''r''])
      else if c = CHR 0x09 then Some (cstr [BSL, CHR ''t''])
      else if c = CHR 0x0B then Some (cstr [BSL, CHR ''v''])
      else if c = SQ then Some (cstr [BSL, SQ])
      else if c = BSL then Some (cstr [BSL, BSL])
      else None)"

text \<open>
  The table \<^verbatim>\<open>static const char *hex[]\<close> of \<^verbatim>\<open>dollar_quote\<close>: sixteen strings of one
  digit each.
\<close>

definition hexdigits :: string where
  "hexdigits = ''0123456789ABCDEF''"

definition hex :: "cptr list" where
  "hex = map (\<lambda>c. cstr [c]) hexdigits"

text \<open>
  The first inner loop of \<^verbatim>\<open>dollar_quote\<close> looks for a quote or backslash among
  \<^verbatim>\<open>str[j..i)\<close>; the second one escapes each of these bytes.
\<close>

function has_special :: "cptr \<Rightarrow> nat \<Rightarrow> nat \<Rightarrow> bool" where
  "has_special str j i =
     (if j < i then
        (if str j = SQ \<or> str j = BSL then True else has_special str (Suc j) i)
      else False)"
  by pat_completeness auto
termination
  by (relation "measure (\<lambda>(str, j, i). i - j)") auto

declare has_special.simps [simp del]

definition dollar_byte :: "cursor \<Rightarrow> nat \<Rightarrow> char \<Rightarrow> cursor" where
  "dollar_byte st end byte =
     (case dollar_esc byte of
        Some esc \<Rightarrow> xstpecpy st end esc
      | None \<Rightarrow>
          (let st1 = xstpecpy st end (cstr [BSL, CHR ''x'']);
               st2 = xstpecpy st1 end (hex ! (of_char byte div 0x10))
           in xstpecpy st2 end (hex ! (of_char byte mod 0x10))))"

function dollar_bytes :: "cursor \<Rightarrow> nat \<Rightarrow> cptr \<Rightarrow> nat \<Rightarrow> nat \<Rightarrow> cursor" where
  "dollar_bytes st end str j i =
     (if j < i then dollar_bytes (dollar_byte st end (str j)) end str (Suc j) i else st)"
  by pat_completeness auto
termination
  by (relation "measure (\<lambda>(st, end, str, j, i). i - j)") auto

declare dollar_bytes.simps [simp del]

text \<open>
  One iteration of the outer loop of \<^verbatim>\<open>dollar_quote\<close>, from \<^verbatim>\<open>size_t start = i\<close>
  to the end of the loop body.
\<close>

partial_function (option) dollar_quote_loop ::
  "'s clocale \<Rightarrow> cursor \<Rightarrow> nat \<Rightarrow> cptr \<Rightarrow> nat \<Rightarrow> bool \<Rightarrow> nat \<Rightarrow> 's \<Rightarrow> cursor option" where
  "dollar_quote_loop L st end str len shell i mb =
     (if i < len then
        (case xmbrtowc L i str len mb of
           (wc, i1, mb1) \<Rightarrow>
             let safe0 = (case wc of Some w \<Rightarrow> xiswprint L w shell | None \<Rightarrow> False);
                 safe = (if has_special str i i1 then False else safe0);
                 st1 = (if safe then xstpencpy st end (ptr_add str i) (i1 - i)
                        else dollar_bytes st end str i i1)
             in dollar_quote_loop L st1 end str len shell i1 mb1)
      else Some st)"

definition dollar_quote ::
  "'s clocale \<Rightarrow> cursor \<Rightarrow> nat \<Rightarrow> cptr \<Rightarrow> nat \<Rightarrow> bool \<Rightarrow> cursor option" where
  "dollar_quote L st end str len shell = do {
     st1 \<leftarrow> dollar_quote_loop L (xstpecpy st end (cstr [CHR ''$'', SQ])) end str len shell 0 (mb_zero L);
     Some (xstpecpy st1 end (cstr [SQ])) }"

definition double_quote :: "cursor \<Rightarrow> nat \<Rightarrow> cptr \<Rightarrow> nat \<Rightarrow> cursor" where
  "double_quote st end str len =
     (let st1 = xstpecpy st end (cstr [DQ]);
          st2 = xstpencpy st1 end str len
      in xstpecpy st2 end (cstr [DQ]))"

text \<open>
  \<^verbatim>\<open>single_quote\<close>. The loop state is the cursor, \<^verbatim>\<open>open\<close>, \<^verbatim>\<open>str\<close> and
  \<^verbatim>\<open>len\<close>. \<open>single_quote_chunk\<close> is the \<^verbatim>\<open>if (chunk > 0)\<close> statement,
  \<open>single_quote_quotes\<close> the inner \<^verbatim>\<open>while\<close> loop over a run of quotes, and
  \<open>single_quote_loop\<close> the outer \<^verbatim>\<open>while (len > 0)\<close>.
\<close>

type_synonym sq_state = "cursor \<times> bool \<times> cptr \<times> nat"

definition single_quote_chunk :: "sq_state \<Rightarrow> nat \<Rightarrow> nat \<Rightarrow> sq_state" where
  "single_quote_chunk s end chunk =
     (case s of (st, opn, str, len) \<Rightarrow>
        if chunk > 0 then
          (let st1 = (if \<not> opn then xstpecpy st end (cstr [SQ]) else st);
               st2 = xstpencpy st1 end str chunk
           in (st2, True, ptr_add str chunk, len - chunk))
        else (st, opn, str, len))"

function single_quote_quotes :: "sq_state \<Rightarrow> nat \<Rightarrow> sq_state" where
  "single_quote_quotes s end =
     (case s of (st, opn, str, len) \<Rightarrow>
        if len > 0 \<and> str 0 = SQ then
          (let st1 = (if opn then xstpecpy st end (cstr [SQ]) else st);
               st2 = xstpecpy st1 end (cstr [BSL, SQ])
           in single_quote_quotes (st2, False, ptr_add str 1, len - 1) end)
        else (st, opn, str, len))"
  by pat_completeness auto
termination
  by (relation "measure (\<lambda>(s, end). snd (snd (snd s)))") auto

declare single_quote_quotes.simps [simp del]

partial_function (option) single_quote_loop :: "sq_state \<Rightarrow> nat \<Rightarrow> sq_state option" where
  "single_quote_loop s end =
     (case s of (st, opn, str, len) \<Rightarrow>
        if len > 0 then
          (case strcspn str [SQ] of
             None \<Rightarrow> None
           | Some c \<Rightarrow>
               single_quote_loop
                 (single_quote_quotes
                    (single_quote_chunk s end (if c < len then c else len)) end) end)
        else Some s)"

definition single_quote :: "cursor \<Rightarrow> nat \<Rightarrow> cptr \<Rightarrow> nat \<Rightarrow> cursor option" where
  "single_quote st end str len = do {
     (st1, opn, str1, len1) \<leftarrow> single_quote_loop (st, False, str, len) end;
     Some (if opn then xstpecpy st1 end (cstr [SQ]) else st1) }"

section \<open>The strategy selector\<close>

text \<open>
  \<^verbatim>\<open>
  char *wordnesc(char *dest, char *end, const char *str, size_t n, enum wesc_flags flags) {
      size_t len = strnlen(str, n);
      char *start = dest;
      if (printable_len(str, len, flags) < len) {
          dest = dollar_quote(dest, end, str, len, flags);
      } else if (!(flags & WESC_SHELL) || bare_len(str, len) == len) {
          dest = xstpencpy(dest, end, str, len);
      } else if (quotable_len(str, len) == len) {
          dest = double_quote(dest, end, str, len);
      } else {
          dest = single_quote(dest, end, str, len);
      }
      if (dest == start) { dest = xstpecpy(dest, end, "\"\""); }
      return dest;
  }
  \<close>
  \<open>is_bare\<close> is the second condition, with the short circuit of \<^verbatim>\<open>||\<close>.
\<close>

definition is_bare :: "cptr \<Rightarrow> nat \<Rightarrow> bool \<Rightarrow> bool option" where
  "is_bare str len shell =
     (if \<not> shell then Some True else map_option (\<lambda>b. b = len) (bare_len str len))"

definition wordnesc ::
  "'s clocale \<Rightarrow> cursor \<Rightarrow> nat \<Rightarrow> cptr \<Rightarrow> nat \<Rightarrow> bool \<Rightarrow> cursor option" where
  "wordnesc L st end str n shell =
     (let len = strnlen str n;
          start = snd st
      in do {
        p \<leftarrow> printable_len L str len shell;
        st1 \<leftarrow>
          (if p < len then dollar_quote L st end str len shell
           else do {
             bare \<leftarrow> is_bare str len shell;
             if bare then Some (xstpencpy st end str len)
             else do {
               q \<leftarrow> quotable_len str len;
               if q = len then Some (double_quote st end str len)
               else single_quote st end str len } });
        Some (if snd st1 = start then xstpecpy st1 end (cstr [DQ, DQ]) else st1) })"

definition wordesc :: "'s clocale \<Rightarrow> cursor \<Rightarrow> nat \<Rightarrow> cptr \<Rightarrow> bool \<Rightarrow> cursor option" where
  "wordesc L st end str shell = wordnesc L st end str SIZE_MAX shell"

section \<open>Two sample locales\<close>

text \<open>
  Concrete platforms to run the code on. In the first, bytes above 127 are invalid and
  the printable characters are 0x20 to 0x7E, as in the C locale; the second decodes UTF-8
  and also counts the code points from U+00A0 as printable. Both decoders are stateless:
  the conversion state is \<^typ>\<open>unit\<close>.
\<close>

definition ascii_print :: "nat \<Rightarrow> bool" where
  "ascii_print w = (32 \<le> w \<and> w < 127)"

definition ascii_space :: "nat \<Rightarrow> bool" where
  "ascii_space w = (w = 32 \<or> (9 \<le> w \<and> w \<le> 13))"

definition c_mbrtowc :: "string \<Rightarrow> unit \<Rightarrow> mbresult \<times> unit" where
  "c_mbrtowc bs mb =
     (case bs of
        [] \<Rightarrow> (MB_INCOMPLETE, mb)
      | c # cs \<Rightarrow>
          if c = NUL then (MB_OK 0 0, mb)
          else if isascii c then (MB_OK (of_char c) 1, mb)
          else (MB_INVALID, mb))"

definition c_locale :: "unit clocale" where
  "c_locale = \<lparr> mbrtowc = c_mbrtowc, mb_zero = (),
     isprint = (\<lambda>c. ascii_print (of_char c)), isspace = (\<lambda>c. ascii_space (of_char c)),
     iswprint = ascii_print, iswspace = ascii_space \<rparr>"

definition utf8_cont :: "char \<Rightarrow> bool" where
  "utf8_cont c = (128 \<le> (of_char c :: nat) \<and> (of_char c :: nat) < 192)"

text \<open>The number of continuation bytes a lead byte asks for, and the bits it carries.\<close>

definition utf8_lead :: "char \<Rightarrow> (nat \<times> nat) option" where
  "utf8_lead c =
     (let b = (of_char c :: nat) in
      if b < 0xC2 then None
      else if b < 0xE0 then Some (1, b - 0xC0)
      else if b < 0xF0 then Some (2, b - 0xE0)
      else if b < 0xF5 then Some (3, b - 0xF0)
      else None)"

fun utf8_value :: "nat \<Rightarrow> string \<Rightarrow> nat" where
  "utf8_value acc [] = acc"
| "utf8_value acc (c # cs) = utf8_value (acc * 64 + (of_char c - 128)) cs"

definition utf8_mbrtowc :: "string \<Rightarrow> unit \<Rightarrow> mbresult \<times> unit" where
  "utf8_mbrtowc bs mb =
     (case bs of
        [] \<Rightarrow> (MB_INCOMPLETE, mb)
      | c # cs \<Rightarrow>
          if c = NUL then (MB_OK 0 0, mb)
          else if isascii c then (MB_OK (of_char c) 1, mb)
          else (case utf8_lead c of
                  None \<Rightarrow> (MB_INVALID, mb)
                | Some (k, bits) \<Rightarrow>
                    if \<not> list_all utf8_cont (take k cs) then (MB_INVALID, mb)
                    else if length cs < k then (MB_INCOMPLETE, mb)
                    else (MB_OK (utf8_value bits (take k cs)) (k + 1), mb)))"

definition utf8_print :: "nat \<Rightarrow> bool" where
  "utf8_print w = (ascii_print w \<or> 160 \<le> w)"

definition utf8_locale :: "unit clocale" where
  "utf8_locale = \<lparr> mbrtowc = utf8_mbrtowc, mb_zero = (),
     isprint = (\<lambda>c. ascii_print (of_char c)), isspace = (\<lambda>c. ascii_space (of_char c)),
     iswprint = utf8_print, iswspace = ascii_space \<rparr>"

text \<open>A memory to start from, and the result of a call as the bytes it left and the cursor.\<close>

definition blank :: memory where
  "blank = (\<lambda>a. CHR ''#'')"

definition outcome :: "nat \<Rightarrow> nat \<Rightarrow> cursor option \<Rightarrow> (string \<times> nat) option" where
  "outcome a n r = map_option (\<lambda>(m, d). (peek m a n, d)) r"

section \<open>Notions used to state the properties\<close>

text \<open>A C string has a terminator somewhere.\<close>

definition is_cstring :: "cptr \<Rightarrow> bool" where
  "is_cstring s = (\<exists>k. s k = NUL)"

text \<open>
  What the C standard promises of \<^verbatim>\<open>mbrtowc\<close>: a decoded character takes no more
  bytes than were offered, and the answer 0 (the null wide character) is only given
  when a zero byte was among them.
\<close>

definition decoder_ok :: "'s clocale \<Rightarrow> bool" where
  "decoder_ok L = (\<forall>bs mb wc k mb1.
     mbrtowc L bs mb = (MB_OK wc k, mb1) \<longrightarrow> k \<le> length bs \<and> (k = 0 \<longrightarrow> NUL \<in> set bs))"

text \<open>
  Writing a sequence of bytes through the bounded writer in one call, and the state that
  call leaves, written out: either the bytes fit and a terminator follows them, or the
  buffer is filled, its last byte is the terminator and the cursor is \<^verbatim>\<open>end\<close>.
\<close>

definition write_bytes :: "cursor \<Rightarrow> nat \<Rightarrow> string \<Rightarrow> cursor" where
  "write_bytes st end bs = xstpencpy st end (cstr bs) (length bs)"

definition put :: "cursor \<Rightarrow> nat \<Rightarrow> string \<Rightarrow> cursor" where
  "put st end bs =
     (case st of (m, dest) \<Rightarrow>
        if length bs < end - dest
        then ((\<lambda>a. if dest \<le> a \<and> a < dest + length bs then bs ! (a - dest)
                    else if a = dest + length bs then NUL else m a), dest + length bs)
        else ((\<lambda>a. if a = end - 1 then NUL
                    else if dest \<le> a \<and> a < end then bs ! (a - dest) else m a), end))"

text \<open>
  The single-quoted form, byte by byte, as the specification words it: a quote is
  written as backslash-quote outside any quoted run, closing the run that is open; any
  other byte is written inside a run, opening one if none is open; at the end an open run
  is closed. \<open>sq_open\<close> tells whether a run is open after the bytes.
\<close>

fun sq_out :: "bool \<Rightarrow> string \<Rightarrow> string" where
  "sq_out opn [] = []"
| "sq_out opn (c # cs) =
     (if c = SQ then (if opn then [SQ] else []) @ [BSL, SQ] @ sq_out False cs
      else (if opn then [] else [SQ]) @ c # sq_out True cs)"

fun sq_open :: "bool \<Rightarrow> string \<Rightarrow> bool" where
  "sq_open opn [] = opn"
| "sq_open opn (c # cs) = sq_open (c \<noteq> SQ) cs"

definition sq_spec :: "string \<Rightarrow> string" where
  "sq_spec s = sq_out False s @ (if sq_open False s then [SQ] else [])"

text \<open>
  The dollar-quoted form, written out as a string. \<open>esc_byte\<close> is the escape of one
  byte, \<open>dollar_piece\<close> what one iteration of the outer loop of \<^verbatim>\<open>dollar_quote\<close>
  contributes for the bytes \<^verbatim>\<open>str[i..i1)\<close>, and \<open>dollar_body\<close> the text between
  \<^verbatim>\<open>$'\<close> and the closing quote. \<open>dollar_body\<close> stops if the offset does not advance,
  which makes it total for every decoder.
\<close>

definition esc_byte :: "char \<Rightarrow> string" where
  "esc_byte c =
     (if c = CHR 0x07 then [BSL, CHR ''a'']
      else if c = CHR 0x08 then [BSL, CHR ''b'']
      else if c = CHR 0x1B then [BSL, CHR ''e'']
      else if c = CHR 0x0C then [BSL, CHR ''f'']
      else if c = CHR 0x0A then [BSL, CHR ''n'']
      else if c = CHR 0x0D then [BSL, CHR ''r'']
      else if c = CHR 0x09 then [BSL, CHR ''t'']
      else if c = CHR 0x0B then [BSL, CHR ''v'']
      else if c = SQ then [BSL, SQ]
      else if c = BSL then [BSL, BSL]
      else [BSL, CHR ''x'', hexdigits ! (of_char c div 16), hexdigits ! (of_char c mod 16)])"

definition dollar_piece :: "'s clocale \<Rightarrow> cptr \<Rightarrow> bool \<Rightarrow> nat \<Rightarrow> nat option \<Rightarrow> nat \<Rightarrow> string" where
  "dollar_piece L str shell i wc i1 =
     (if (case wc of Some w \<Rightarrow> xiswprint L w shell | None \<Rightarrow> False) \<and> \<not> has_special str i i1
      then bytes (ptr_add str i) (strnlen (ptr_add str i) (i1 - i))
      else concat (map esc_byte (bytes (ptr_add str i) (i1 - i))))"

function dollar_body :: "'s clocale \<Rightarrow> cptr \<Rightarrow> nat \<Rightarrow> bool \<Rightarrow> nat \<Rightarrow> 's \<Rightarrow> string" where
  "dollar_body L str len shell i mb =
     (if i < len then
        (case xmbrtowc L i str len mb of
           (wc, i1, mb1) \<Rightarrow>
             if i1 \<le> i then []
             else dollar_piece L str shell i wc i1 @ dollar_body L str len shell i1 mb1)
      else [])"
  by pat_completeness auto
termination
  by (relation "measure (\<lambda>(L, str, len, shell, i, mb). len - i)") auto

declare dollar_body.simps [simp del]

text \<open>
  The quoted form of the first \<^verbatim>\<open>strnlen(str, n)\<close> bytes of \<open>str\<close>, as a string: what
  \<^verbatim>\<open>wordnesc\<close> hands to the bounded writer over the whole call. The three scans are
  the code's own; a scan that does not return leaves the form empty.
\<close>

definition quoted :: "'s clocale \<Rightarrow> cptr \<Rightarrow> nat \<Rightarrow> bool \<Rightarrow> string" where
  "quoted L str n shell =
     (let len = strnlen str n; s = bytes str len in
      case printable_len L str len shell of
        None \<Rightarrow> []
      | Some p \<Rightarrow>
          if p < len then [CHR ''$'', SQ] @ dollar_body L str len shell 0 (mb_zero L) @ [SQ]
          else (case is_bare str len shell of
                  None \<Rightarrow> []
                | Some bare \<Rightarrow>
                    if bare then (if s = [] then [DQ, DQ] else s)
                    else (case quotable_len str len of
                            None \<Rightarrow> []
                          | Some q \<Rightarrow> if q = len then DQ # s @ [DQ] else sq_spec s)))"

text \<open>
  The four strategies, the order in which the specification selects among them from the
  three scan results, and the emitter each one names.
\<close>

datatype strategy = Bare | DoubleQuoted | SingleQuoted | DollarQuoted

definition select_strategy :: "nat \<Rightarrow> nat \<Rightarrow> nat \<Rightarrow> nat \<Rightarrow> bool \<Rightarrow> strategy" where
  "select_strategy len p b q shell =
     (if p < len then DollarQuoted
      else if \<not> shell \<or> b = len then Bare
      else if q = len then DoubleQuoted
      else SingleQuoted)"

fun emitter ::
  "strategy \<Rightarrow> 's clocale \<Rightarrow> cursor \<Rightarrow> nat \<Rightarrow> cptr \<Rightarrow> nat \<Rightarrow> bool \<Rightarrow> cursor option" where
  "emitter Bare L st end str len shell = Some (xstpencpy st end str len)"
| "emitter DoubleQuoted L st end str len shell = Some (double_quote st end str len)"
| "emitter SingleQuoted L st end str len shell = single_quote st end str len"
| "emitter DollarQuoted L st end str len shell = dollar_quote L st end str len shell"

text \<open>
  A reader for single-quoted text: runs \<^verbatim>\<open>'...'\<close> and the token \<^verbatim>\<open>\'\<close> between
  runs. The flag tells whether a run is open; text that ends inside a run is rejected.
\<close>

fun sq_read :: "bool \<Rightarrow> string \<Rightarrow> string option" where
  "sq_read inside [] = (if inside then None else Some [])"
| "sq_read inside (c # cs) =
     (if inside then
        (if c = SQ then sq_read False cs else map_option ((#) c) (sq_read True cs))
      else if c = SQ then sq_read True cs
      else if c = BSL then
        (case cs of
           [] \<Rightarrow> None
         | c' # cs' \<Rightarrow> if c' = SQ then map_option ((#) SQ) (sq_read False cs') else None)
      else None)"

subsection \<open>A reader of shell words\<close>

text \<open>
  The word grammar of the POSIX shell, for one word: unquoted text with backslash
  escapes, \<^verbatim>\<open>'...'\<close>, \<^verbatim>\<open>"..."\<close> and \<^verbatim>\<open>$'...'\<close>. The reader answers the bytes the
  word stands for. It answers \<open>None\<close> where the text is not one literal word: an
  operator or a blank outside quotes, an unterminated quote, and the expansions (a tilde
  or comment sign at the start of the word, parameter and command substitution, pathname
  patterns), whose result is not the text itself.
\<close>

datatype sh_mode =
  Unquoted | UnqEsc | Dollar | InSingle | InDouble | DblEsc | InAnsi | AnsiEsc | AnsiX | AnsiX1 nat

definition sh_special :: "char \<Rightarrow> bool" where
  "sh_special c = (c \<in> set [CHR ''`'', CHR ''|'', CHR ''&'', CHR '';'', CHR ''<'', CHR ''>'',
     CHR ''('', CHR '')'', CHR '' '', CHR 0x09, CHR 0x0A, CHR ''*'', CHR ''?'', CHR ''[''])"

definition sh_plain :: "char \<Rightarrow> bool" where
  "sh_plain c = (c \<noteq> SQ \<and> c \<noteq> DQ \<and> c \<noteq> BSL \<and> c \<noteq> CHR ''$'' \<and> \<not> sh_special c)"

definition hex_val :: "char \<Rightarrow> nat option" where
  "hex_val c =
     (let n = (of_char c :: nat) in
      if 48 \<le> n \<and> n \<le> 57 then Some (n - 48)
      else if 65 \<le> n \<and> n \<le> 70 then Some (n - 55)
      else if 97 \<le> n \<and> n \<le> 102 then Some (n - 87)
      else None)"

definition ansi_named :: "char \<Rightarrow> char option" where
  "ansi_named c =
     (if c = CHR ''a'' then Some (CHR 0x07)
      else if c = CHR ''b'' then Some (CHR 0x08)
      else if c = CHR ''e'' \<or> c = CHR ''E'' then Some (CHR 0x1B)
      else if c = CHR ''f'' then Some (CHR 0x0C)
      else if c = CHR ''n'' then Some (CHR 0x0A)
      else if c = CHR ''r'' then Some (CHR 0x0D)
      else if c = CHR ''t'' then Some (CHR 0x09)
      else if c = CHR ''v'' then Some (CHR 0x0B)
      else if c = BSL \<or> c = SQ \<or> c = DQ \<or> c = CHR ''?'' then Some c
      else None)"

definition sh_byte :: "nat \<Rightarrow> string option \<Rightarrow> string option" where
  "sh_byte v rest = (if v = 0 then None else map_option ((#) (char_of v)) rest)"

fun sh_parse :: "sh_mode \<Rightarrow> string \<Rightarrow> string option" where
  "sh_parse Unquoted [] = Some []"
| "sh_parse Unquoted (c # s) =
     (if c = SQ then sh_parse InSingle s
      else if c = DQ then sh_parse InDouble s
      else if c = BSL then sh_parse UnqEsc s
      else if c = CHR ''$'' then sh_parse Dollar s
      else if sh_special c then None
      else map_option ((#) c) (sh_parse Unquoted s))"
| "sh_parse UnqEsc [] = None"
| "sh_parse UnqEsc (c # s) =
     (if c = CHR 0x0A then sh_parse Unquoted s else map_option ((#) c) (sh_parse Unquoted s))"
| "sh_parse Dollar [] = Some [CHR ''$'']"
| "sh_parse Dollar (c # s) = (if c = SQ then sh_parse InAnsi s else None)"
| "sh_parse InSingle [] = None"
| "sh_parse InSingle (c # s) =
     (if c = SQ then sh_parse Unquoted s else map_option ((#) c) (sh_parse InSingle s))"
| "sh_parse InDouble [] = None"
| "sh_parse InDouble (c # s) =
     (if c = DQ then sh_parse Unquoted s
      else if c = BSL then sh_parse DblEsc s
      else if c = CHR ''$'' \<or> c = CHR ''`'' then None
      else map_option ((#) c) (sh_parse InDouble s))"
| "sh_parse DblEsc [] = None"
| "sh_parse DblEsc (c # s) =
     (if c = CHR ''$'' \<or> c = CHR ''`'' \<or> c = DQ \<or> c = BSL
        then map_option ((#) c) (sh_parse InDouble s)
      else if c = CHR 0x0A then sh_parse InDouble s
      else map_option (\<lambda>t. BSL # c # t) (sh_parse InDouble s))"
| "sh_parse InAnsi [] = None"
| "sh_parse InAnsi (c # s) =
     (if c = SQ then sh_parse Unquoted s
      else if c = BSL then sh_parse AnsiEsc s
      else map_option ((#) c) (sh_parse InAnsi s))"
| "sh_parse AnsiEsc [] = None"
| "sh_parse AnsiEsc (c # s) =
     (if c = CHR ''x'' then sh_parse AnsiX s
      else (case ansi_named c of
              Some b \<Rightarrow> map_option ((#) b) (sh_parse InAnsi s)
            | None \<Rightarrow> None))"
| "sh_parse AnsiX [] = None"
| "sh_parse AnsiX (c # s) =
     (case hex_val c of Some v \<Rightarrow> sh_parse (AnsiX1 v) s | None \<Rightarrow> None)"
| "sh_parse (AnsiX1 v) [] = None"
| "sh_parse (AnsiX1 v) (c # s) =
     (case hex_val c of
        Some v2 \<Rightarrow> sh_byte (16 * v + v2) (sh_parse InAnsi s)
      | None \<Rightarrow>
          sh_byte v
            (if c = SQ then sh_parse Unquoted s
             else if c = BSL then sh_parse AnsiEsc s
             else map_option ((#) c) (sh_parse InAnsi s)))"

definition sh_word :: "string \<Rightarrow> string option" where
  "sh_word s =
     (case s of
        [] \<Rightarrow> None
      | c # _ \<Rightarrow> if c = CHR ''~'' \<or> c = CHR ''#'' then None else sh_parse Unquoted s)"

text \<open>
  The decoder reports no incomplete sequence at an offset past the start of the first
  \<open>len\<close> bytes.
\<close>

definition no_overrun :: "'s clocale \<Rightarrow> cptr \<Rightarrow> nat \<Rightarrow> bool" where
  "no_overrun L str len = (\<forall>i mb. 0 < i \<and> i < len \<longrightarrow>
     fst (mbrtowc L (bytes (ptr_add str i) (len - i)) mb) \<noteq> MB_INCOMPLETE)"

section \<open>Facts about the model\<close>

subsection \<open>Bytes at a pointer\<close>

lemma length_bytes [simp]: "length (bytes p n) = n"
proof (induction n arbitrary: p)
  case 0
  show ?case by (simp add: bytes.simps)
next
  case (Suc n)
  show ?case using Suc [of "ptr_add p 1"] by (simp add: bytes.simps [of p "Suc n"])
qed

lemma nth_bytes [simp]: "i < n \<Longrightarrow> bytes p n ! i = p i"
proof (induction n arbitrary: p i)
  case 0
  then show ?case by simp
next
  case (Suc n)
  show ?case
  proof (cases i)
    case 0
    then show ?thesis by (simp add: bytes.simps [of p "Suc n"])
  next
    case (Suc i')
    then have "i' < n" using Suc.prems by simp
    from Suc.IH [OF this, of "ptr_add p 1"] Suc show ?thesis
      by (simp add: bytes.simps [of p "Suc n"] ptr_add_def)
  qed
qed

lemma bytes_0 [simp]: "bytes p 0 = []"
  by (simp add: bytes.simps)

lemma bytes_cstr [simp]: "bytes (cstr s) (length s) = s"
  by (rule nth_equalityI) (simp_all add: cstr_def)

lemma set_bytes: "set (bytes p n) = p ` {..<n}"
  by (auto simp: set_conv_nth image_iff) (metis length_bytes nth_bytes)+

lemma take_bytes: "k \<le> n \<Longrightarrow> take k (bytes p n) = bytes p k"
  by (rule nth_equalityI) simp_all

lemma drop_bytes: "drop k (bytes p n) = bytes (ptr_add p k) (n - k)"
  by (rule nth_equalityI) (simp_all add: ptr_add_def)

lemma ptr_add_0 [simp]: "ptr_add p 0 = p"
  by (simp add: ptr_add_def)

lemma ptr_add_add [simp]: "ptr_add (ptr_add p a) b = ptr_add p (a + b)"
  by (simp add: ptr_add_def add.assoc)

lemma ptr_add_apply [simp]: "ptr_add p k j = p (k + j)"
  by (simp add: ptr_add_def)

subsection \<open>strnlen\<close>

lemma strnlen_from_props:
  "k \<le> n \<Longrightarrow> k \<le> strnlen_from s n k \<and> strnlen_from s n k \<le> n \<and>
     (\<forall>j. k \<le> j \<and> j < strnlen_from s n k \<longrightarrow> s j \<noteq> NUL) \<and>
     (strnlen_from s n k < n \<longrightarrow> s (strnlen_from s n k) = NUL)"
proof (induction s n k rule: strnlen_from.induct)
  case (1 s n k)
  show ?case
  proof (cases "k < n \<and> s k \<noteq> NUL")
    case True
    then have eq: "strnlen_from s n k = strnlen_from s n (Suc k)"
      by (subst strnlen_from.simps) simp
    have ih: "Suc k \<le> strnlen_from s n (Suc k) \<and> strnlen_from s n (Suc k) \<le> n \<and>
       (\<forall>j. Suc k \<le> j \<and> j < strnlen_from s n (Suc k) \<longrightarrow> s j \<noteq> NUL) \<and>
       (strnlen_from s n (Suc k) < n \<longrightarrow> s (strnlen_from s n (Suc k)) = NUL)"
      using "1.IH" True by simp
    show ?thesis
      unfolding eq using ih True
      by (metis Suc_leD le_antisym not_less_eq_eq)
  next
    case False
    then have eq: "strnlen_from s n k = k"
      by (subst strnlen_from.simps) auto
    show ?thesis using False "1.prems" unfolding eq by auto
  qed
qed

lemma strnlen_le: "strnlen s n \<le> n"
  using strnlen_from_props [of 0 n s] by (simp add: strnlen_def)

lemma strnlen_nonzero: "j < strnlen s n \<Longrightarrow> s j \<noteq> NUL"
  using strnlen_from_props [of 0 n s] by (simp add: strnlen_def)

lemma strnlen_stop: "strnlen s n < n \<Longrightarrow> s (strnlen s n) = NUL"
  using strnlen_from_props [of 0 n s] by (simp add: strnlen_def)

lemma strnlen_eqI:
  assumes "l \<le> n" and "\<forall>j<l. s j \<noteq> NUL" and "l < n \<longrightarrow> s l = NUL"
  shows "strnlen s n = l"
proof (rule antisym)
  show "strnlen s n \<le> l"
  proof (rule ccontr)
    assume "\<not> strnlen s n \<le> l"
    then have "l < strnlen s n" by simp
    moreover have "l < n" using \<open>l < strnlen s n\<close> strnlen_le [of s n] by simp
    ultimately show False using assms(3) strnlen_nonzero [of l s n] by simp
  qed
  show "l \<le> strnlen s n"
  proof (rule ccontr)
    assume "\<not> l \<le> strnlen s n"
    then have lt: "strnlen s n < l" by simp
    then have "strnlen s n < n" using assms(1) by simp
    then have "s (strnlen s n) = NUL" by (rule strnlen_stop)
    then show False using assms(2) lt by simp
  qed
qed

lemma strnlen_min: "strnlen s (min a b) = min (strnlen s a) b"
proof (rule strnlen_eqI)
  show "min (strnlen s a) b \<le> min a b" using strnlen_le [of s a] by simp
  show "\<forall>j<min (strnlen s a) b. s j \<noteq> NUL" using strnlen_nonzero [of _ s a] by simp
  show "min (strnlen s a) b < min a b \<longrightarrow> s (min (strnlen s a) b) = NUL"
    using strnlen_stop [of s a] strnlen_le [of s a] by (auto simp: min_def)
qed

lemma strnlen_cstr: "NUL \<notin> set bs \<Longrightarrow> strnlen (cstr bs) n = min (length bs) n"
  by (rule strnlen_eqI) (auto simp: cstr_def dest: nth_mem)

lemma strnlen_bytes_free: "NUL \<notin> set (bytes s (strnlen s n))"
  by (auto simp: set_bytes dest: strnlen_nonzero)

subsection \<open>The bounded writer as one formula\<close>

text \<open>
  Every call of the writer whose cursor lies at or before \<^verbatim>\<open>end\<close> leaves the state
  \<open>put\<close> describes, for the bytes it copied; and two writes in a row leave what one
  write of both byte sequences leaves. So a chain of writes is one write.
\<close>

lemma xstpencpy_put:
  assumes "dest \<le> end"
  shows "xstpencpy (m, dest) end src n = put (m, dest) end (bytes src (strnlen src n))"
proof -
  let ?k = "strnlen src n"
  let ?space = "end - dest"
  have n2: "strnlen src (if ?space < n then ?space else n) = min ?k ?space"
    using strnlen_min [of src n ?space] strnlen_le [of src n] by (auto simp: min_def)
  show ?thesis
  proof (cases "?k < ?space")
    case True
    then have "min ?k ?space = ?k" by simp
    with True assms n2 show ?thesis
      by (auto simp: xstpencpy_def put_def Let_def memcpy_def fun_eq_iff)
  next
    case False
    then have "min ?k ?space = ?space" by simp
    with False assms n2 show ?thesis
      by (auto simp: xstpencpy_def put_def Let_def memcpy_def fun_eq_iff)
  qed
qed

lemma write_bytes_put:
  "dest \<le> end \<Longrightarrow> NUL \<notin> set bs \<Longrightarrow> write_bytes (m, dest) end bs = put (m, dest) end bs"
  by (simp add: write_bytes_def xstpencpy_put strnlen_cstr)

lemma xstpecpy_put:
  "dest \<le> end \<Longrightarrow> NUL \<notin> set bs \<Longrightarrow> length bs \<le> SIZE_MAX \<Longrightarrow>
     xstpecpy (m, dest) end (cstr bs) = put (m, dest) end bs"
  by (simp add: xstpecpy_def xstpencpy_put strnlen_cstr min_def)

lemma snd_put_le: "dest \<le> end \<Longrightarrow> snd (put (m, dest) end bs) \<le> end"
  by (auto simp: put_def)

lemma put_append:
  assumes "dest \<le> end"
  shows "put (put (m, dest) end xs) end ys = put (m, dest) end (xs @ ys)"
proof (cases "length xs < end - dest")
  case True
  show ?thesis
  proof (cases "length ys < end - (dest + length xs)")
    case True
    with \<open>length xs < end - dest\<close> show ?thesis
      by (auto simp: put_def fun_eq_iff nth_append)
  next
    case False
    with \<open>length xs < end - dest\<close> show ?thesis
      by (auto simp: put_def fun_eq_iff nth_append)
  qed
next
  case False
  then show ?thesis
    by (auto simp: put_def fun_eq_iff nth_append)
qed

lemma xstpencpy_put':
  "snd st \<le> end \<Longrightarrow> xstpencpy st end src n = put st end (bytes src (strnlen src n))"
  by (cases st) (simp add: xstpencpy_put)

lemma strnlen_free: "\<forall>j<n. s j \<noteq> NUL \<Longrightarrow> strnlen s n = n"
  by (rule strnlen_eqI) auto

lemma xstpencpy_put_free:
  "snd st \<le> end \<Longrightarrow> \<forall>j<n. src j \<noteq> NUL \<Longrightarrow> xstpencpy st end src n = put st end (bytes src n)"
  by (simp add: xstpencpy_put' strnlen_free)

lemma write_bytes_put': "snd st \<le> end \<Longrightarrow> NUL \<notin> set bs \<Longrightarrow> write_bytes st end bs = put st end bs"
  by (cases st) (simp add: write_bytes_put)

lemma xstpecpy_put':
  "snd st \<le> end \<Longrightarrow> NUL \<notin> set bs \<Longrightarrow> length bs \<le> SIZE_MAX \<Longrightarrow>
     xstpecpy st end (cstr bs) = put st end bs"
  by (cases st) (simp add: xstpecpy_put)

lemma snd_put_le' [simp]: "snd st \<le> end \<Longrightarrow> snd (put st end bs) \<le> end"
  by (cases st) (simp add: snd_put_le)

lemma put_append' [simp]: "snd st \<le> end \<Longrightarrow> put (put st end xs) end ys = put st end (xs @ ys)"
  by (cases st) (simp add: put_append)

lemma small_le_SIZE_MAX [simp]: "n \<le> 4 \<Longrightarrow> n \<le> SIZE_MAX"
  by (simp add: SIZE_MAX_def)

subsection \<open>strcspn\<close>

text \<open>On a C string the scan returns, at the first byte that stops it.\<close>

lemma strcspn_from_least:
  assumes "s r = NUL \<or> s r \<in> set reject" and "k \<le> r"
    and "\<forall>j. k \<le> j \<and> j < r \<longrightarrow> \<not> (s j = NUL \<or> s j \<in> set reject)"
  shows "strcspn_from s reject k = Some r"
  using assms
proof (induction "r - k" arbitrary: k)
  case 0
  then have "k = r" by simp
  with 0 show ?case by (subst strcspn_from.simps) simp
next
  case (Suc d)
  then have "k < r" by simp
  with Suc.prems have "\<not> (s k = NUL \<or> s k \<in> set reject)" by simp
  then have "strcspn_from s reject k = strcspn_from s reject (Suc k)"
    by (subst strcspn_from.simps) simp
  moreover have "strcspn_from s reject (Suc k) = Some r"
    using Suc.hyps(1) [of "Suc k"] Suc.hyps(2) Suc.prems \<open>k < r\<close> by auto
  ultimately show ?case by simp
qed

lemma strcspn_Some:
  assumes "is_cstring s"
  shows "\<exists>c. strcspn s reject = Some c \<and> (s c = NUL \<or> s c \<in> set reject) \<and>
           (\<forall>j<c. s j \<noteq> NUL \<and> s j \<notin> set reject)"
proof -
  define P where "P = (\<lambda>r. s r = NUL \<or> s r \<in> set reject)"
  from assms have ex: "\<exists>r. P r" by (auto simp: is_cstring_def P_def)
  define c where "c = (LEAST r. P r)"
  have stop: "P c" unfolding c_def using ex by (rule LeastI_ex)
  have before: "\<not> P j" if "j < c" for j
    using that unfolding c_def by (rule not_less_Least)
  have "strcspn_from s reject 0 = Some c"
  proof (rule strcspn_from_least)
    show "s c = NUL \<or> s c \<in> set reject" using stop by (simp add: P_def)
    show "0 \<le> c" by simp
    show "\<forall>j. 0 \<le> j \<and> j < c \<longrightarrow> \<not> (s j = NUL \<or> s j \<in> set reject)"
      using before by (simp add: P_def)
  qed
  moreover have "s c = NUL \<or> s c \<in> set reject" using stop by (simp add: P_def)
  moreover have "\<forall>j<c. s j \<noteq> NUL \<and> s j \<notin> set reject" using before by (simp add: P_def)
  ultimately show ?thesis unfolding strcspn_def by blast
qed

lemma is_cstring_ptr_add:
  "is_cstring s \<Longrightarrow> \<forall>j<k. s j \<noteq> NUL \<Longrightarrow> is_cstring (ptr_add s k)"
  unfolding is_cstring_def
proof -
  assume "\<exists>z. s z = NUL" and free: "\<forall>j<k. s j \<noteq> NUL"
  then obtain z where z: "s z = NUL" by blast
  with free have "k \<le> z" by (metis not_le)
  then have "ptr_add s k (z - k) = NUL" using z by simp
  then show "\<exists>z. ptr_add s k z = NUL" by blast
qed

subsection \<open>The emitters as single writes\<close>

lemma bytes_Suc: "0 < n \<Longrightarrow> bytes p n = p 0 # bytes (ptr_add p 1) (n - 1)"
  by (subst bytes.simps) simp

lemma bytes_split: "k \<le> n \<Longrightarrow> bytes p n = bytes p k @ bytes (ptr_add p k) (n - k)"
  by (rule nth_equalityI) (auto simp: nth_append)

lemma double_quote_put:
  "snd st \<le> end \<Longrightarrow> \<forall>j<len. str j \<noteq> NUL \<Longrightarrow>
     double_quote st end str len = put st end (DQ # bytes str len @ [DQ])"
  by (simp add: double_quote_def Let_def xstpecpy_put' xstpencpy_put_free)

lemma sq_out_plain: "SQ \<notin> set xs \<Longrightarrow> sq_out True (xs @ ys) = xs @ sq_out True ys"
  by (induction xs) auto

lemma sq_out_plain_start:
  "SQ \<notin> set xs \<Longrightarrow> xs \<noteq> [] \<Longrightarrow>
     sq_out opn (xs @ ys) = (if opn then [] else [SQ]) @ xs @ sq_out True ys"
  by (cases xs) (auto simp: sq_out_plain)

lemma sq_open_plain_True: "SQ \<notin> set xs \<Longrightarrow> sq_open True (xs @ ys) = sq_open True ys"
  by (induction xs) auto

lemma sq_open_plain: "SQ \<notin> set xs \<Longrightarrow> xs \<noteq> [] \<Longrightarrow> sq_open opn (xs @ ys) = sq_open True ys"
  by (cases xs) (auto simp: sq_open_plain_True)

lemma single_quote_quotes_run:
  "snd st \<le> end \<Longrightarrow>
   \<exists>st' opn' k out.
     single_quote_quotes (st, opn, str, len) end = (st', opn', ptr_add str k, len - k) \<and>
     k \<le> len \<and> (k < len \<longrightarrow> str k \<noteq> SQ) \<and> snd st' \<le> end \<and>
     (if k = 0 then st' = st \<and> opn' = opn \<and> out = [] else st' = put st end out) \<and>
     sq_out opn (bytes str len) = out @ sq_out opn' (bytes (ptr_add str k) (len - k)) \<and>
     sq_open opn (bytes str len) = sq_open opn' (bytes (ptr_add str k) (len - k))"
proof (induction len arbitrary: st opn str)
  case 0
  have "single_quote_quotes (st, opn, str, 0) end = (st, opn, ptr_add str 0, 0 - 0)"
    by (subst single_quote_quotes.simps) simp
  with 0 show ?case by (intro exI [of _ st] exI [of _ opn] exI [of _ 0] exI [of _ "[]"]) simp
next
  case (Suc len)
  show ?case
  proof (cases "str 0 = SQ")
    case False
    have "single_quote_quotes (st, opn, str, Suc len) end = (st, opn, ptr_add str 0, Suc len - 0)"
      using False by (subst single_quote_quotes.simps) simp
    with False Suc.prems show ?thesis
      by (intro exI [of _ st] exI [of _ opn] exI [of _ 0] exI [of _ "[]"]) simp
  next
    case True
    define pre where "pre = (if opn then [SQ] else []) @ [BSL, SQ]"
    define st2 where "st2 = put st end pre"
    have st2: "xstpecpy (if opn then xstpecpy st end (cstr [SQ]) else st) end (cstr [BSL, SQ]) = st2"
      using Suc.prems by (simp add: st2_def pre_def xstpecpy_put')
    have le2: "snd st2 \<le> end" using Suc.prems by (simp add: st2_def)
    have unf: "single_quote_quotes (st, opn, str, Suc len) end =
                 single_quote_quotes (st2, False, ptr_add str 1, len) end"
      using True st2 by (subst single_quote_quotes.simps) (simp add: Let_def)
    from Suc.IH [OF le2, of False "ptr_add str 1"]
    obtain st' opn' k out where
      r: "single_quote_quotes (st2, False, ptr_add str 1, len) end
            = (st', opn', ptr_add (ptr_add str 1) k, len - k)"
      and k: "k \<le> len" "k < len \<longrightarrow> ptr_add str 1 k \<noteq> SQ" "snd st' \<le> end"
      and o: "if k = 0 then st' = st2 \<and> opn' = False \<and> out = [] else st' = put st2 end out"
      and so: "sq_out False (bytes (ptr_add str 1) len)
                 = out @ sq_out opn' (bytes (ptr_add (ptr_add str 1) k) (len - k))"
      and sp: "sq_open False (bytes (ptr_add str 1) len)
                 = sq_open opn' (bytes (ptr_add (ptr_add str 1) k) (len - k))"
      by blast
    have b: "bytes str (Suc len) = SQ # bytes (ptr_add str 1) len"
      using True by (simp add: bytes_Suc)
    have st': "st' = put st end (pre @ out)"
      using o Suc.prems by (auto simp: st2_def split: if_splits)
    show ?thesis
    proof (intro exI [of _ st'] exI [of _ opn'] exI [of _ "Suc k"] exI [of _ "pre @ out"] conjI)
      show "single_quote_quotes (st, opn, str, Suc len) end
              = (st', opn', ptr_add str (Suc k), Suc len - Suc k)"
        using unf r by simp
      show "Suc k \<le> Suc len" using k by simp
      show "Suc k < Suc len \<longrightarrow> str (Suc k) \<noteq> SQ" using k by simp
      show "snd st' \<le> end" using k by simp
      show "if Suc k = 0 then st' = st \<and> opn' = opn \<and> pre @ out = [] else st' = put st end (pre @ out)"
        using st' by simp
      show "sq_out opn (bytes str (Suc len))
              = (pre @ out) @ sq_out opn' (bytes (ptr_add str (Suc k)) (Suc len - Suc k))"
        using so by (simp add: b pre_def)
      show "sq_open opn (bytes str (Suc len))
              = sq_open opn' (bytes (ptr_add str (Suc k)) (Suc len - Suc k))"
        using sp by (simp add: b)
    qed
  qed
qed

lemma single_quote_chunk_run:
  assumes "snd st \<le> end" and "\<forall>j<chunk. str j \<noteq> NUL"
  shows "single_quote_chunk (st, opn, str, len) end chunk =
           (if chunk = 0 then st else put st end ((if opn then [] else [SQ]) @ bytes str chunk),
            if chunk = 0 then opn else True, ptr_add str chunk, len - chunk)"
  using assms
  by (auto simp: single_quote_chunk_def Let_def xstpecpy_put' xstpencpy_put_free)

lemma single_quote_loop_run:
  assumes "snd st \<le> end" and "is_cstring str" and "\<forall>j<len. str j \<noteq> NUL"
  shows "\<exists>p. single_quote_loop (st, opn, str, len) end =
           Some (if len = 0 then st else put st end (sq_out opn (bytes str len)),
                 sq_open opn (bytes str len), p, 0)"
  using assms
proof (induction len arbitrary: st opn str rule: less_induct)
  case (less len)
  show ?case
  proof (cases "len = 0")
    case True
    then show ?thesis by (subst single_quote_loop.simps) simp
  next
    case False
    obtain c where c: "strcspn str [SQ] = Some c" "str c = NUL \<or> str c = SQ"
        "\<forall>j<c. str j \<noteq> NUL \<and> str j \<noteq> SQ"
      using strcspn_Some [OF less.prems(2), of "[SQ]"] by auto
    define chunk where "chunk = (if c < len then c else len)"
    have chunk_le: "chunk \<le> len" by (simp add: chunk_def)
    have plain: "\<forall>j<chunk. str j \<noteq> SQ" using c(3) by (simp add: chunk_def split: if_splits)
    have free: "\<forall>j<chunk. str j \<noteq> NUL" using less.prems(3) chunk_le by simp
    have at_chunk: "str chunk = SQ" if "chunk < len"
    proof -
      from that have "chunk = c" by (simp add: chunk_def split: if_splits)
      moreover have "str chunk \<noteq> NUL" using that less.prems(3) by simp
      ultimately show ?thesis using c(2) by simp
    qed
    define out1 where "out1 = (if chunk = 0 then [] else (if opn then [] else [SQ]) @ bytes str chunk)"
    define st1 where "st1 = (if chunk = 0 then st else put st end out1)"
    define opn1 where "opn1 = (if chunk = 0 then opn else True)"
    have s1: "single_quote_chunk (st, opn, str, len) end chunk
                = (st1, opn1, ptr_add str chunk, len - chunk)"
      using single_quote_chunk_run [OF less.prems(1) free, of opn len]
      by (simp add: st1_def opn1_def out1_def)
    have le1: "snd st1 \<le> end" using less.prems(1) by (simp add: st1_def)
    have nq: "SQ \<notin> set (bytes str chunk)" using plain by (auto simp: set_bytes)
    have split1: "bytes str len = bytes str chunk @ bytes (ptr_add str chunk) (len - chunk)"
      using chunk_le by (rule bytes_split)
    have so1: "sq_out opn (bytes str len) = out1 @ sq_out opn1 (bytes (ptr_add str chunk) (len - chunk))"
    proof (cases "chunk = 0")
      case True
      then show ?thesis by (simp add: out1_def opn1_def)
    next
      case False
      then have "bytes str chunk \<noteq> []" by (metis length_bytes length_0_conv)
      with nq show ?thesis
        unfolding split1 using False by (simp add: out1_def opn1_def sq_out_plain_start)
    qed
    have sp1: "sq_open opn (bytes str len) = sq_open opn1 (bytes (ptr_add str chunk) (len - chunk))"
    proof (cases "chunk = 0")
      case True
      then show ?thesis by (simp add: opn1_def)
    next
      case False
      then have "bytes str chunk \<noteq> []" by (metis length_bytes length_0_conv)
      with nq show ?thesis
        unfolding split1 using False by (simp add: opn1_def sq_open_plain)
    qed
    from single_quote_quotes_run [OF le1, of opn1 "ptr_add str chunk" "len - chunk"]
    obtain st2 opn2 k out2 where
      r: "single_quote_quotes (st1, opn1, ptr_add str chunk, len - chunk) end
            = (st2, opn2, ptr_add (ptr_add str chunk) k, len - chunk - k)"
      and k: "k \<le> len - chunk" "k < len - chunk \<longrightarrow> ptr_add str chunk k \<noteq> SQ" "snd st2 \<le> end"
      and o: "if k = 0 then st2 = st1 \<and> opn2 = opn1 \<and> out2 = [] else st2 = put st1 end out2"
      and so2: "sq_out opn1 (bytes (ptr_add str chunk) (len - chunk))
                 = out2 @ sq_out opn2 (bytes (ptr_add (ptr_add str chunk) k) (len - chunk - k))"
      and sp2: "sq_open opn1 (bytes (ptr_add str chunk) (len - chunk))
                 = sq_open opn2 (bytes (ptr_add (ptr_add str chunk) k) (len - chunk - k))"
      by blast
    have progress: "0 < chunk + k"
    proof (rule ccontr)
      assume "\<not> 0 < chunk + k"
      then have z: "chunk = 0" "k = 0" by simp_all
      with False have "chunk < len" by simp
      then have "str chunk = SQ" by (rule at_chunk)
      moreover have "str chunk \<noteq> SQ" using k(2) z False by simp
      ultimately show False by simp
    qed
    define len2 where "len2 = len - (chunk + k)"
    define str2 where "str2 = ptr_add str (chunk + k)"
    have len2_less: "len2 < len" using progress False by (simp add: len2_def)
    have ck: "chunk + k \<le> len" using k(1) chunk_le by simp
    have cs2: "is_cstring str2"
      unfolding str2_def using less.prems(2,3) ck by (intro is_cstring_ptr_add) auto
    have free2: "\<forall>j<len2. str2 j \<noteq> NUL"
      using less.prems(3) ck by (auto simp: len2_def str2_def)
    obtain p where ih: "single_quote_loop (st2, opn2, str2, len2) end =
           Some (if len2 = 0 then st2 else put st2 end (sq_out opn2 (bytes str2 len2)),
                 sq_open opn2 (bytes str2 len2), p, 0)"
      using less.IH [OF len2_less k(3) cs2 free2] by blast
    have unf: "single_quote_loop (st, opn, str, len) end = single_quote_loop (st2, opn2, str2, len2) end"
      using False c(1) s1 r
      by (subst single_quote_loop.simps) (simp add: chunk_def str2_def len2_def)
    have st2: "st2 = put st end (out1 @ out2)"
    proof (cases "k = 0")
      case True
      with progress have "chunk \<noteq> 0" by simp
      with True o show ?thesis by (simp add: st1_def)
    next
      case False
      with o have "st2 = put st1 end out2" by simp
      then show ?thesis using less.prems(1) by (auto simp: st1_def out1_def)
    qed
    have so: "sq_out opn (bytes str len) = (out1 @ out2) @ sq_out opn2 (bytes str2 len2)"
      using so1 so2 by (simp add: str2_def len2_def)
    have sp: "sq_open opn (bytes str len) = sq_open opn2 (bytes str2 len2)"
      using sp1 sp2 by (simp add: str2_def len2_def)
    have fin: "(if len2 = 0 then st2 else put st2 end (sq_out opn2 (bytes str2 len2)))
                 = put st end (sq_out opn (bytes str len))"
      using less.prems(1) by (simp add: so st2)
    show ?thesis
      unfolding unf ih using fin sp False by simp
  qed
qed

lemma single_quote_run:
  assumes "snd st \<le> end" and "is_cstring str" and "\<forall>j<len. str j \<noteq> NUL"
  shows "single_quote st end str len =
           Some (if len = 0 then st else put st end (sq_spec (bytes str len)))"
proof -
  obtain p where "single_quote_loop (st, False, str, len) end =
           Some (if len = 0 then st else put st end (sq_out False (bytes str len)),
                 sq_open False (bytes str len), p, 0)"
    using single_quote_loop_run [OF assms] by blast
  then show ?thesis
    using assms(1) by (auto simp: single_quote_def sq_spec_def xstpecpy_put')
qed

subsection \<open>dollar_quote\<close>

lemma length_hexdigits: "length hexdigits = 16"
  by (simp add: hexdigits_def)

lemma hex_nth: "k < 16 \<Longrightarrow> hex ! k = cstr [hexdigits ! k]"
  unfolding hex_def by (rule nth_map) (simp add: length_hexdigits)

lemma hexdigits_free: "k < 16 \<Longrightarrow> hexdigits ! k \<noteq> NUL"
proof -
  assume "k < 16"
  then have "k \<in> {0,1,2,3,4,5,6,7,8,9,10,11,12,13,14,15}" by auto arith
  then show ?thesis by (auto simp: hexdigits_def)
qed

lemma of_char_div16: "(of_char (c::char) :: nat) div 16 < 16"
proof -
  have "(of_char c :: nat) < 256" by (rule nat_of_char_less_256)
  then show ?thesis by presburger
qed

lemma esc_byte_free: "NUL \<notin> set (esc_byte c)"
  using hexdigits_free [OF of_char_div16 [of c]] hexdigits_free [of "of_char c mod 16"]
  by (auto simp: esc_byte_def)

lemma esc_byte_nonempty: "esc_byte c \<noteq> []"
  by (auto simp: esc_byte_def)

lemma dollar_byte_put:
  assumes "snd st \<le> end"
  shows "dollar_byte st end c = put st end (esc_byte c)"
proof (cases "dollar_esc c")
  case (Some e)
  then have "e = cstr (esc_byte c)" and "length (esc_byte c) = 2"
    by (auto simp: dollar_esc_def esc_byte_def split: if_splits)
  with Some assms esc_byte_free [of c] show ?thesis
    by (simp add: dollar_byte_def xstpecpy_put')
next
  case None
  then have e: "esc_byte c = [BSL, CHR ''x'', hexdigits ! (of_char c div 16), hexdigits ! (of_char c mod 16)]"
    by (auto simp: dollar_esc_def esc_byte_def split: if_splits)
  have h1: "hexdigits ! (of_char c div 16) \<noteq> NUL" by (rule hexdigits_free [OF of_char_div16])
  have h2: "hexdigits ! (of_char c mod 16) \<noteq> NUL" by (rule hexdigits_free) simp
  show ?thesis
    using None assms h1 h2 of_char_div16 [of c]
    by (simp add: dollar_byte_def Let_def e hex_nth xstpecpy_put')
qed

lemma dollar_bytes_put:
  "snd st \<le> end \<Longrightarrow> j < i \<Longrightarrow>
     dollar_bytes st end str j i = put st end (concat (map esc_byte (bytes (ptr_add str j) (i - j))))"
proof (induction "i - j" arbitrary: st j)
  case 0
  then show ?case by simp
next
  case (Suc d)
  define st1 where "st1 = put st end (esc_byte (str j))"
  have le1: "snd st1 \<le> end" using Suc.prems by (simp add: st1_def)
  have unf: "dollar_bytes st end str j i = dollar_bytes st1 end str (Suc j) i"
    using Suc.prems by (subst dollar_bytes.simps) (simp add: dollar_byte_put st1_def)
  have b: "bytes (ptr_add str j) (i - j) = str j # bytes (ptr_add str (Suc j)) (i - Suc j)"
    using Suc.prems by (simp add: bytes_Suc)
  show ?case
  proof (cases "Suc j < i")
    case True
    have "d = i - Suc j" using Suc.hyps(2) by simp
    from Suc.hyps(1) [OF this le1 True] show ?thesis
      unfolding unf b using Suc.prems by (simp add: st1_def)
  next
    case False
    then have "dollar_bytes st1 end str (Suc j) i = st1"
      by (subst dollar_bytes.simps) simp
    moreover have "i - Suc j = 0" using False by simp
    ultimately show ?thesis unfolding unf b by (simp add: st1_def)
  qed
qed

lemma has_special_iff:
  "has_special str j i \<longleftrightarrow> (\<exists>k. j \<le> k \<and> k < i \<and> (str k = SQ \<or> str k = BSL))"
proof (induction str j i rule: has_special.induct)
  case (1 str j i)
  show ?case
  proof (cases "j < i")
    case False
    then show ?thesis by (subst has_special.simps) auto
  next
    case True
    show ?thesis
    proof (cases "str j = SQ \<or> str j = BSL")
      case True
      with \<open>j < i\<close> show ?thesis by (subst has_special.simps) auto
    next
      case False
      with \<open>j < i\<close> have "has_special str j i = has_special str (Suc j) i"
        by (subst has_special.simps) simp
      also have "\<dots> \<longleftrightarrow> (\<exists>k. Suc j \<le> k \<and> k < i \<and> (str k = SQ \<or> str k = BSL))"
        using "1.IH" \<open>j < i\<close> False by simp
      also have "\<dots> \<longleftrightarrow> (\<exists>k. j \<le> k \<and> k < i \<and> (str k = SQ \<or> str k = BSL))"
        using False by (metis Suc_leD Suc_leI le_neq_implies_less)
      finally show ?thesis .
    qed
  qed
qed

lemma xmbrtowc_advance:
  assumes "decoder_ok L" and "i < len" and "\<forall>j<len. str j \<noteq> NUL"
    and "xmbrtowc L i str len mb = (wc, i1, mb1)"
  shows "i < i1 \<and> (wc \<noteq> None \<longrightarrow> i1 \<le> len)"
proof -
  define bs where "bs = bytes (ptr_add str i) (len - i)"
  have free: "NUL \<notin> set bs"
  proof
    assume "NUL \<in> set bs"
    then obtain x where "x < len - i" and "str (i + x) = NUL"
      by (auto simp: bs_def set_bytes)
    moreover from this have "i + x < len" by simp
    ultimately show False using assms(3) by blast
  qed
  obtain r mb' where r: "mbrtowc L bs mb = (r, mb')" by (cases "mbrtowc L bs mb")
  show ?thesis
  proof (cases r)
    case MB_INVALID
    with r assms(4) show ?thesis by (auto simp: xmbrtowc_def bs_def)
  next
    case MB_INCOMPLETE
    with r assms(2,4) show ?thesis by (auto simp: xmbrtowc_def bs_def)
  next
    case (MB_OK w k)
    with r assms(1) have "k \<le> length bs" and "k = 0 \<longrightarrow> NUL \<in> set bs"
      unfolding decoder_ok_def by blast+
    with free have "0 < k" "k \<le> len - i" by (auto simp: bs_def)
    with MB_OK r assms(2,4) show ?thesis by (auto simp: xmbrtowc_def bs_def)
  qed
qed

lemma dollar_piece_free: "NUL \<notin> set (dollar_piece L str shell i wc i1)"
  using strnlen_bytes_free [of "ptr_add str i" "i1 - i"]
  by (auto simp: dollar_piece_def esc_byte_free)

lemma dollar_body_free: "NUL \<notin> set (dollar_body L str len shell i mb)"
proof (induction L str len shell i mb rule: dollar_body.induct)
  case (1 L str len shell i mb)
  show ?case
  proof (cases "i < len")
    case False
    then show ?thesis by (subst dollar_body.simps) simp
  next
    case True
    obtain wc i1 mb1 where x: "xmbrtowc L i str len mb = (wc, i1, mb1)"
      by (cases "xmbrtowc L i str len mb")
    show ?thesis
    proof (cases "i1 \<le> i")
      case True
      with \<open>i < len\<close> x show ?thesis by (subst dollar_body.simps) simp
    next
      case False
      from "1.IH" [OF \<open>i < len\<close> x [symmetric] refl False]
      have "NUL \<notin> set (dollar_body L str len shell i1 mb1)" .
      with False \<open>i < len\<close> x dollar_piece_free [of L str shell i wc i1] show ?thesis
        by (subst dollar_body.simps) simp
    qed
  qed
qed

lemma dollar_step_put:
  assumes "snd st \<le> end" and "i < i1"
  shows "(let safe0 = (case wc of Some w \<Rightarrow> xiswprint L w shell | None \<Rightarrow> False);
              safe = (if has_special str i i1 then False else safe0)
          in if safe then xstpencpy st end (ptr_add str i) (i1 - i) else dollar_bytes st end str i i1)
         = put st end (dollar_piece L str shell i wc i1)"
  using assms by (auto simp: Let_def dollar_piece_def xstpencpy_put' dollar_bytes_put)

lemma dollar_quote_loop_run:
  assumes "decoder_ok L" and "\<forall>j<len. str j \<noteq> NUL" and "snd st \<le> end"
  shows "dollar_quote_loop L st end str len shell i mb =
           Some (if i < len then put st end (dollar_body L str len shell i mb) else st)"
  using assms
proof (induction L str len shell i mb arbitrary: st rule: dollar_body.induct)
  case (1 L str len shell i mb)
  show ?case
  proof (cases "i < len")
    case False
    then show ?thesis by (subst dollar_quote_loop.simps) simp
  next
    case True
    obtain wc i1 mb1 where x: "xmbrtowc L i str len mb = (wc, i1, mb1)"
      by (cases "xmbrtowc L i str len mb")
    have adv: "i < i1" using xmbrtowc_advance [OF "1.prems"(1) True "1.prems"(2) x] by simp
    then have nle: "\<not> i1 \<le> i" by simp
    define st1 where "st1 = put st end (dollar_piece L str shell i wc i1)"
    have le1: "snd st1 \<le> end" using "1.prems"(3) by (simp add: st1_def)
    have unf: "dollar_quote_loop L st end str len shell i mb
                 = dollar_quote_loop L st1 end str len shell i1 mb1"
      using True x dollar_step_put [OF "1.prems"(3) adv, where wc=wc and L=L and shell=shell and str=str]
      by (subst dollar_quote_loop.simps) (simp add: st1_def)
    have body: "dollar_body L str len shell i mb
                  = dollar_piece L str shell i wc i1 @ dollar_body L str len shell i1 mb1"
      using True x nle by (subst dollar_body.simps) simp
    have tail: "\<not> i1 < len \<Longrightarrow> dollar_body L str len shell i1 mb1 = []"
      by (subst dollar_body.simps) simp
    from "1.IH" [OF True x [symmetric] refl nle "1.prems"(1,2) le1]
    have "dollar_quote_loop L st1 end str len shell i1 mb1 =
            Some (if i1 < len then put st1 end (dollar_body L str len shell i1 mb1) else st1)" .
    then show ?thesis
      unfolding unf body using True "1.prems"(3) tail by (auto simp: st1_def)
  qed
qed

lemma dollar_quote_put:
  assumes "decoder_ok L" and "\<forall>j<len. str j \<noteq> NUL" and "snd st \<le> end"
  shows "dollar_quote L st end str len shell =
           Some (put st end ([CHR ''$'', SQ] @ dollar_body L str len shell 0 (mb_zero L) @ [SQ]))"
proof -
  define st0 where "st0 = put st end [CHR ''$'', SQ]"
  have s0: "xstpecpy st end (cstr [CHR ''$'', SQ]) = st0"
    using assms(3) by (simp add: st0_def xstpecpy_put')
  have le0: "snd st0 \<le> end" using assms(3) by (simp add: st0_def)
  have tail: "\<not> 0 < len \<Longrightarrow> dollar_body L str len shell 0 (mb_zero L) = []"
    by (subst dollar_body.simps) simp
  show ?thesis
    unfolding dollar_quote_def s0 dollar_quote_loop_run [OF assms(1,2) le0]
    using assms(3) le0 tail
    by (auto simp: st0_def xstpecpy_put')
qed

subsection \<open>The scans return\<close>

text \<open>
  The multibyte loop of \<^verbatim>\<open>printable_len\<close> and the outer loop of \<^verbatim>\<open>dollar_quote\<close>
  advance because a decoder that keeps the contract consumes at least one byte where no
  zero byte is offered.
\<close>

lemma printable_mb_Some:
  assumes "decoder_ok L" and "\<forall>j<len. str j \<noteq> NUL"
  shows "\<exists>p. printable_mb L str len shell i mb = Some p"
proof (induction "len - i" arbitrary: i mb rule: less_induct)
  case less
  show ?case
  proof (cases "i < len")
    case False
    then show ?thesis by (subst printable_mb.simps) simp
  next
    case True
    obtain wc i1 mb1 where x: "xmbrtowc L i str len mb = (wc, i1, mb1)"
      by (cases "xmbrtowc L i str len mb")
    have adv: "i < i1" using xmbrtowc_advance [OF assms(1) True assms(2) x] by simp
    show ?thesis
    proof (cases wc)
      case None
      with True x show ?thesis by (subst printable_mb.simps) simp
    next
      case (Some w)
      show ?thesis
      proof (cases "xiswprint L w shell")
        case False
        with True x Some show ?thesis by (subst printable_mb.simps) simp
      next
        case pr: True
        have "len - i1 < len - i" using adv True by simp
        from less [OF this] obtain p where "printable_mb L str len shell i1 mb1 = Some p" by blast
        with True x Some pr show ?thesis by (subst printable_mb.simps) simp
      qed
    qed
  qed
qed

lemma printable_len_Some:
  assumes "decoder_ok L" and "\<forall>j<len. str j \<noteq> NUL"
  shows "\<exists>p. printable_len L str len shell = Some p"
  using printable_mb_Some [OF assms]
  by (auto simp: printable_len_def split: prod.splits bool.splits)

lemma bare_len_Some: "is_cstring str \<Longrightarrow> \<exists>b. bare_len str len = Some b"
  using strcspn_Some [of str bare_reject] by (auto simp: bare_len_def)

lemma bare_len_zero: "bare_len str 0 = Some b \<Longrightarrow> b = 0"
  by (auto simp: bare_len_def split: bind_splits)

lemma is_bare_Some: "is_cstring str \<Longrightarrow> \<exists>b. is_bare str len shell = Some b"
  using bare_len_Some [of str len] by (auto simp: is_bare_def)

lemma is_bare_zero: "is_bare str 0 shell = Some b \<Longrightarrow> b"
  by (auto simp: is_bare_def dest: bare_len_zero split: if_splits)

lemma quotable_len_Some: "is_cstring str \<Longrightarrow> \<exists>q. quotable_len str len = Some q"
  using strcspn_Some [of str quotable_reject] by (auto simp: quotable_len_def)

subsection \<open>The whole call\<close>

text \<open>
  \<^verbatim>\<open>wordnesc\<close> leaves what one write of the quoted form leaves. The fix-up after the
  emitter fires exactly when nothing was emitted, or when the buffer had no room at all.
\<close>

lemma put_full: "snd st = end \<Longrightarrow> put st end xs = put st end ys"
  by (cases st) (auto simp: put_def)

lemma snd_put_Nil: "snd st \<le> end \<Longrightarrow> snd (put st end []) = snd st"
  by (cases st) (auto simp: put_def)

lemma snd_put_advance: "snd st < end \<Longrightarrow> xs \<noteq> [] \<Longrightarrow> snd (put st end xs) \<noteq> snd st"
  by (cases st) (auto simp: put_def)

lemma fixup_put:
  assumes "snd st \<le> end"
  shows "(if snd (put st end out) = snd st then xstpecpy (put st end out) end (cstr [DQ, DQ])
          else put st end out) = put st end (if out = [] then [DQ, DQ] else out)"
proof (cases "out = []")
  case True
  with assms show ?thesis by (simp add: snd_put_Nil xstpecpy_put')
next
  case False
  show ?thesis
  proof (cases "snd st < end")
    case True
    with False show ?thesis by (simp add: snd_put_advance)
  next
    case f: False
    with assms have e: "snd st = end" by simp
    have "xstpecpy (put st end out) end (cstr [DQ, DQ]) = put st end (out @ [DQ, DQ])"
      using assms by (simp add: xstpecpy_put')
    also have "\<dots> = put st end out" using e by (rule put_full)
    finally show ?thesis using False by simp
  qed
qed

lemma sq_out_free: "NUL \<notin> set s \<Longrightarrow> NUL \<notin> set (sq_out opn s)"
  by (induction s arbitrary: opn) auto

lemma sq_spec_free: "NUL \<notin> set s \<Longrightarrow> NUL \<notin> set (sq_spec s)"
  by (simp add: sq_spec_def sq_out_free)

lemma bytes_strnlen_free: "NUL \<notin> set (bytes str (strnlen str n))"
  by (rule strnlen_bytes_free)

lemma wordnesc_quoted:
  assumes "decoder_ok L" and "is_cstring str" and "snd st \<le> end"
  shows "wordnesc L st end str n shell = Some (put st end (quoted L str n shell))"
proof -
  define len where "len = strnlen str n"
  define s where "s = bytes str len"
  have free: "\<forall>j<len. str j \<noteq> NUL" by (simp add: len_def strnlen_nonzero)
  obtain p where p: "printable_len L str len shell = Some p"
    using printable_len_Some [OF assms(1) free] by blast
  show ?thesis
  proof (cases "p < len")
    case True
    define out where "out = [CHR ''$'', SQ] @ dollar_body L str len shell 0 (mb_zero L) @ [SQ]"
    have q: "quoted L str n shell = out"
      using p True by (simp add: quoted_def Let_def len_def [symmetric] out_def)
    have d: "dollar_quote L st end str len shell = Some (put st end out)"
      using dollar_quote_put [OF assms(1) free assms(3)] by (simp add: out_def)
    have "out \<noteq> []" by (simp add: out_def)
    then show ?thesis
      using p True d fixup_put [OF assms(3), of out]
      by (simp add: wordnesc_def Let_def len_def [symmetric] q)
  next
    case False
    obtain b where b: "is_bare str len shell = Some b"
      using is_bare_Some [OF assms(2)] by blast
    show ?thesis
    proof (cases b)
      case True
      have q: "quoted L str n shell = (if s = [] then [DQ, DQ] else s)"
        using p False b True by (simp add: quoted_def Let_def len_def [symmetric] s_def)
      have w: "xstpencpy st end str len = put st end s"
        using assms(3) free by (simp add: xstpencpy_put_free s_def)
      show ?thesis
        using p False b True w fixup_put [OF assms(3), of s]
        by (simp add: wordnesc_def Let_def len_def [symmetric] q)
    next
      case nb: False
      have pos: "0 < len"
      proof (rule ccontr)
        assume "\<not> 0 < len"
        with b have "b" by (auto dest: is_bare_zero)
        with nb show False by simp
      qed
      obtain ql where ql: "quotable_len str len = Some ql"
        using quotable_len_Some [OF assms(2)] by blast
      show ?thesis
      proof (cases "ql = len")
        case True
        define out where "out = DQ # s @ [DQ]"
        have q: "quoted L str n shell = out"
          using p False b nb ql True by (simp add: quoted_def Let_def len_def [symmetric] s_def out_def)
        have w: "double_quote st end str len = put st end out"
          using assms(3) free by (simp add: double_quote_put s_def out_def)
        have "out \<noteq> []" by (simp add: out_def)
        then show ?thesis
          using p False b nb ql True w fixup_put [OF assms(3), of out]
          by (simp add: wordnesc_def Let_def len_def [symmetric] q)
      next
        case nq: False
        define out where "out = sq_spec s"
        have q: "quoted L str n shell = out"
          using p False b nb ql nq by (simp add: quoted_def Let_def len_def [symmetric] s_def out_def)
        have w: "single_quote st end str len = Some (put st end out)"
          using single_quote_run [OF assms(3,2) free] pos by (simp add: s_def out_def)
        have "s \<noteq> []" using pos by (metis s_def length_bytes length_0_conv less_numeral_extra(3))
        then have "out \<noteq> []" by (cases s) (auto simp: out_def sq_spec_def)
        then show ?thesis
          using p False b nb ql nq w fixup_put [OF assms(3), of out]
          by (simp add: wordnesc_def Let_def len_def [symmetric] q)
      qed
    qed
  qed
qed

subsection \<open>Termination of single_quote, whatever the cursor\<close>

lemma single_quote_quotes_ctrl:
  "\<exists>st' opn' k. single_quote_quotes (st, opn, str, len) end = (st', opn', ptr_add str k, len - k) \<and>
     k \<le> len \<and> (k < len \<longrightarrow> str k \<noteq> SQ)"
proof (induction len arbitrary: st opn str)
  case 0
  have "single_quote_quotes (st, opn, str, 0) end = (st, opn, ptr_add str 0, 0 - 0) \<and>
          (0::nat) \<le> 0 \<and> ((0::nat) < 0 \<longrightarrow> str 0 \<noteq> SQ)"
    by (subst single_quote_quotes.simps) simp
  then show ?case by blast
next
  case (Suc len)
  show ?case
  proof (cases "str 0 = SQ")
    case False
    have "single_quote_quotes (st, opn, str, Suc len) end = (st, opn, ptr_add str 0, Suc len - 0) \<and>
            0 \<le> Suc len \<and> (0 < Suc len \<longrightarrow> str 0 \<noteq> SQ)"
      using False by (subst single_quote_quotes.simps) simp
    then show ?thesis by blast
  next
    case True
    define st2 where
      "st2 = xstpecpy (if opn then xstpecpy st end (cstr [SQ]) else st) end (cstr [BSL, SQ])"
    have unf: "single_quote_quotes (st, opn, str, Suc len) end =
                 single_quote_quotes (st2, False, ptr_add str 1, len) end"
      using True by (subst single_quote_quotes.simps) (simp add: Let_def st2_def)
    from Suc [of st2 False "ptr_add str 1"]
    obtain st' opn' k where
      r: "single_quote_quotes (st2, False, ptr_add str 1, len) end
            = (st', opn', ptr_add (ptr_add str 1) k, len - k)"
      and k: "k \<le> len" "k < len \<longrightarrow> ptr_add str 1 k \<noteq> SQ"
      by blast
    have "single_quote_quotes (st, opn, str, Suc len) end
            = (st', opn', ptr_add str (Suc k), Suc len - Suc k) \<and>
          Suc k \<le> Suc len \<and> (Suc k < Suc len \<longrightarrow> str (Suc k) \<noteq> SQ)"
      using unf r k by simp
    then show ?thesis by blast
  qed
qed

lemma single_quote_step_decreases:
  assumes "is_cstring str" and "\<forall>j<len. str j \<noteq> NUL" and "0 < len"
  shows "\<exists>c st' opn' d. strcspn str [SQ] = Some c \<and>
           single_quote_quotes (single_quote_chunk (st, opn, str, len) end (if c < len then c else len)) end
             = (st', opn', ptr_add str d, len - d) \<and> 0 < d \<and> d \<le> len"
proof -
  obtain c where c: "strcspn str [SQ] = Some c" "str c = NUL \<or> str c = SQ"
    using strcspn_Some [OF assms(1), of "[SQ]"] by auto
  define chunk where "chunk = (if c < len then c else len)"
  have chunk_le: "chunk \<le> len" by (simp add: chunk_def)
  obtain st1 opn1 where s1: "single_quote_chunk (st, opn, str, len) end chunk
      = (st1, opn1, ptr_add str chunk, len - chunk)"
    by (cases "chunk = 0") (auto simp: single_quote_chunk_def Let_def)
  from single_quote_quotes_ctrl [of st1 opn1 "ptr_add str chunk" "len - chunk" "end"]
  obtain st2 opn2 k where
    r: "single_quote_quotes (st1, opn1, ptr_add str chunk, len - chunk) end
          = (st2, opn2, ptr_add (ptr_add str chunk) k, len - chunk - k)"
    and k: "k \<le> len - chunk" "k < len - chunk \<longrightarrow> ptr_add str chunk k \<noteq> SQ"
    by blast
  have progress: "0 < chunk + k"
  proof (rule ccontr)
    assume "\<not> 0 < chunk + k"
    then have z: "chunk = 0" "k = 0" by simp_all
    with assms(3) have "c = 0" by (simp add: chunk_def split: if_splits)
    with c(2) assms(2,3) have "str 0 = SQ" by auto
    moreover have "str 0 \<noteq> SQ" using k(2) z assms(3) by simp
    ultimately show False by simp
  qed
  have "strcspn str [SQ] = Some c \<and>
           single_quote_quotes (single_quote_chunk (st, opn, str, len) end (if c < len then c else len)) end
             = (st2, opn2, ptr_add str (chunk + k), len - (chunk + k)) \<and>
           0 < chunk + k \<and> chunk + k \<le> len"
    using c(1) s1 r progress k(1) chunk_le by (simp add: chunk_def [symmetric])
  then show ?thesis by blast
qed

lemma single_quote_loop_terminates:
  assumes "is_cstring str" and "\<forall>j<len. str j \<noteq> NUL"
  shows "\<exists>r. single_quote_loop (st, opn, str, len) end = Some r"
  using assms
proof (induction len arbitrary: st opn str rule: less_induct)
  case (less len)
  show ?case
  proof (cases "0 < len")
    case False
    then have "single_quote_loop (st, opn, str, len) end = Some (st, opn, str, len)"
      by (subst single_quote_loop.simps) simp
    then show ?thesis by blast
  next
    case True
    from single_quote_step_decreases [OF less.prems True, of st opn "end"]
    obtain c st' opn' d where c: "strcspn str [SQ] = Some c"
      and step: "single_quote_quotes (single_quote_chunk (st, opn, str, len) end (if c < len then c else len)) end
             = (st', opn', ptr_add str d, len - d)"
      and d: "0 < d" "d \<le> len"
      by blast
    have less': "len - d < len" using d True by simp
    have cs: "is_cstring (ptr_add str d)"
      using less.prems d by (intro is_cstring_ptr_add) auto
    have free: "\<forall>j<len - d. ptr_add str d j \<noteq> NUL" using less.prems(2) d by auto
    from less.IH [OF less' cs free, of st' opn']
    obtain r where r: "single_quote_loop (st', opn', ptr_add str d, len - d) end = Some r" by blast
    have "single_quote_loop (st, opn, str, len) end
            = single_quote_loop (st', opn', ptr_add str d, len - d) end"
      using True c step by (subst single_quote_loop.simps) simp
    with r show ?thesis by metis
  qed
qed

subsection \<open>Running the model on concrete inputs\<close>

text \<open>
  The loops that may not return unfold one iteration at a time, under their conditions.
\<close>

lemma strcspn_from_stop: "s k = NUL \<or> s k \<in> set reject \<Longrightarrow> strcspn_from s reject k = Some k"
  by (subst strcspn_from.simps) simp

lemma strcspn_from_go:
  "\<not> (s k = NUL \<or> s k \<in> set reject) \<Longrightarrow> strcspn_from s reject k = strcspn_from s reject (Suc k)"
  by (subst strcspn_from.simps) simp

lemma printable_mb_stop: "\<not> i < len \<Longrightarrow> printable_mb L str len shell i mb = Some i"
  by (subst printable_mb.simps) simp

lemma printable_mb_go:
  "i < len \<Longrightarrow> printable_mb L str len shell i mb =
     (case xmbrtowc L i str len mb of
        (None, i1, mb1) \<Rightarrow> Some i1
      | (Some wc, i1, mb1) \<Rightarrow>
          if \<not> xiswprint L wc shell then Some i1 else printable_mb L str len shell i1 mb1)"
  by (subst printable_mb.simps) simp

lemma dollar_quote_loop_stop: "\<not> i < len \<Longrightarrow> dollar_quote_loop L st end str len shell i mb = Some st"
  by (subst dollar_quote_loop.simps) simp

lemma dollar_quote_loop_go:
  "i < len \<Longrightarrow> dollar_quote_loop L st end str len shell i mb =
     (case xmbrtowc L i str len mb of
        (wc, i1, mb1) \<Rightarrow>
          let safe0 = (case wc of Some w \<Rightarrow> xiswprint L w shell | None \<Rightarrow> False);
              safe = (if has_special str i i1 then False else safe0);
              st1 = (if safe then xstpencpy st end (ptr_add str i) (i1 - i)
                     else dollar_bytes st end str i i1)
          in dollar_quote_loop L st1 end str len shell i1 mb1)"
  by (subst dollar_quote_loop.simps) simp

lemma single_quote_loop_stop:
  "\<not> 0 < len \<Longrightarrow> single_quote_loop (st, opn, str, len) end = Some (st, opn, str, len)"
  by (subst single_quote_loop.simps) simp

lemma single_quote_loop_go:
  "0 < len \<Longrightarrow> single_quote_loop (st, opn, str, len) end =
     (case strcspn str [SQ] of
        None \<Rightarrow> None
      | Some c \<Rightarrow>
          single_quote_loop
            (single_quote_quotes
               (single_quote_chunk (st, opn, str, len) end (if c < len then c else len)) end) end)"
  by (subst single_quote_loop.simps) simp

lemmas run_simps =
  strcspn_from_stop strcspn_from_go printable_mb_stop printable_mb_go
  dollar_quote_loop_stop dollar_quote_loop_go single_quote_loop_stop single_quote_loop_go
  wordnesc_def wordesc_def is_bare_def single_quote_def single_quote_chunk_def
  single_quote_quotes.simps double_quote_def dollar_quote_def dollar_bytes.simps dollar_byte_def
  has_special.simps hex_def hexdigits_def dollar_esc_def quotable_len_def quotable_reject_def bare_len_def
  bare_reject_def printable_len_def printable_ascii.simps xiswprint_def xisprint_def xmbrtowc_def
  xstpecpy_def xstpencpy_def isascii_def memcpy_def strcspn_def strnlen_def strnlen_from.simps
  peek_def bytes.simps cstr_def ptr_add_def SIZE_MAX_def blank_def outcome_def

lemmas c_locale_simps = c_locale_def c_mbrtowc_def ascii_print_def ascii_space_def

lemmas utf8_locale_simps =
  utf8_locale_def utf8_mbrtowc_def utf8_print_def utf8_lead_def utf8_cont_def
  ascii_print_def ascii_space_def

lemma is_cstring_cstr: "is_cstring (cstr s)"
  unfolding is_cstring_def by (rule exI [of _ "length s"]) (simp add: cstr_def)

lemma c_locale_ok: "decoder_ok c_locale"
  by (auto simp: decoder_ok_def c_locale_def c_mbrtowc_def split: list.splits if_splits)

lemma utf8_locale_ok: "decoder_ok utf8_locale"
  by (auto simp: decoder_ok_def utf8_locale_def utf8_mbrtowc_def
      split: list.splits if_splits option.splits)

subsection \<open>What one write leaves in the buffer\<close>

lemma put_safe:
  assumes "lo \<le> d" and "d \<le> end" and "lo < end" and "put (m, d) end bs = (m', r)"
  shows "d \<le> r \<and> r \<le> end \<and> (\<forall>a. a < lo \<or> end \<le> a \<longrightarrow> m' a = m a) \<and>
         (let t = (if r < end then r else end - 1) in lo \<le> t \<and> t < end \<and> m' t = NUL)"
  using assms by (auto simp: put_def Let_def split: if_splits)

lemma cstr_nonzero: "NUL \<notin> set s \<Longrightarrow> j < length s \<Longrightarrow> cstr s j \<noteq> NUL"
  by (auto simp: cstr_def dest: nth_mem)

lemma put_fits:
  assumes "dest + length bs < end" and "put (m, dest) end bs = (m', r)"
  shows "r = dest + length bs \<and> peek m' dest (length bs) = bs \<and> m' (dest + length bs) = NUL"
proof -
  have r: "r = dest + length bs" and m': "m' = (\<lambda>a. if dest \<le> a \<and> a < dest + length bs then bs ! (a - dest)
                    else if a = dest + length bs then NUL else m a)"
    using assms by (auto simp: put_def split: if_splits)
  have "peek m' dest (length bs) = bs"
    by (rule nth_equalityI) (simp_all add: peek_def m')
  with r m' show ?thesis by simp
qed

lemma quoted_free: "NUL \<notin> set (quoted L str n shell)"
  using dollar_body_free [of L str "strnlen str n" shell 0 "mb_zero L"]
    strnlen_bytes_free [of str n] sq_spec_free [of "bytes str (strnlen str n)"]
  by (auto simp: quoted_def Let_def split: option.splits)

lemma printable_len_zero: "printable_len L str 0 shell = Some 0"
  by (simp add: printable_len_def printable_ascii.simps printable_mb_stop)

lemma sq_read_out:
  "sq_read opn (sq_out opn s @ (if sq_open opn s then [SQ] else [])) = Some s"
proof (induction s arbitrary: opn)
  case Nil
  show ?case by simp
next
  case (Cons c s)
  show ?case
    using Cons [of False] Cons [of True] by (cases opn) (auto split: if_splits)
qed

subsection \<open>Reading the quoted forms back\<close>

text \<open>
  Each quoted form reads back, through the reader of shell words, to the bytes it was
  made from: a bare word free of the bytes the reader treats specially, a double-quoted
  one free of the four bytes that are special inside double quotes, the single-quoted
  form, and the dollar-quoted form, piece by piece.
\<close>

lemma sh_parse_plain:
  "\<forall>c\<in>set s. sh_plain c \<Longrightarrow> sh_parse Unquoted (s @ t) = map_option ((@) s) (sh_parse Unquoted t)"
proof (induction s)
  case Nil
  show ?case by (cases "sh_parse Unquoted t") simp_all
next
  case (Cons c s)
  then have c: "sh_plain c" and ih: "sh_parse Unquoted (s @ t) = map_option ((@) s) (sh_parse Unquoted t)"
    by simp_all
  from c have "sh_parse Unquoted (c # (s @ t)) = map_option ((#) c) (sh_parse Unquoted (s @ t))"
    by (simp add: sh_plain_def)
  then show ?case
    unfolding ih by (cases "sh_parse Unquoted t") simp_all
qed

lemma sh_parse_double:
  "\<forall>c\<in>set s. c \<noteq> DQ \<and> c \<noteq> BSL \<and> c \<noteq> CHR ''$'' \<and> c \<noteq> CHR ''`'' \<Longrightarrow>
     sh_parse InDouble (s @ t) = map_option ((@) s) (sh_parse InDouble t)"
proof (induction s)
  case Nil
  show ?case by (cases "sh_parse InDouble t") simp_all
next
  case (Cons c s)
  then have c: "c \<noteq> DQ \<and> c \<noteq> BSL \<and> c \<noteq> CHR ''$'' \<and> c \<noteq> CHR ''`''"
    and ih: "sh_parse InDouble (s @ t) = map_option ((@) s) (sh_parse InDouble t)"
    by simp_all
  from c have "sh_parse InDouble (c # (s @ t)) = map_option ((#) c) (sh_parse InDouble (s @ t))"
    by simp
  then show ?case
    unfolding ih by (cases "sh_parse InDouble t") simp_all
qed

lemma sh_parse_single_quoted:
  "sh_parse (if opn then InSingle else Unquoted)
     (sq_out opn s @ (if sq_open opn s then [SQ] else [])) = Some s"
proof (induction s arbitrary: opn)
  case Nil
  show ?case by simp
next
  case (Cons c s)
  show ?case
    using Cons [of False] Cons [of True] by (cases opn) (auto simp: sh_special_def split: if_splits)
qed

lemma sh_parse_ansi_verbatim:
  "SQ \<notin> set xs \<Longrightarrow> BSL \<notin> set xs \<Longrightarrow>
     sh_parse InAnsi (xs @ t) = map_option ((@) xs) (sh_parse InAnsi t)"
proof (induction xs)
  case Nil
  show ?case by (cases "sh_parse InAnsi t") simp_all
next
  case (Cons c xs)
  then have c: "c \<noteq> SQ \<and> c \<noteq> BSL"
    and ih: "sh_parse InAnsi (xs @ t) = map_option ((@) xs) (sh_parse InAnsi t)"
    by auto
  from c have "sh_parse InAnsi (c # (xs @ t)) = map_option ((#) c) (sh_parse InAnsi (xs @ t))"
    by simp
  then show ?case
    unfolding ih by (cases "sh_parse InAnsi t") simp_all
qed

lemma hex_val_digit: "k < 16 \<Longrightarrow> hex_val (hexdigits ! k) = Some k"
proof -
  assume "k < 16"
  then have "k \<in> {0,1,2,3,4,5,6,7,8,9,10,11,12,13,14,15}" by auto arith
  then show ?thesis by (auto simp: hexdigits_def hex_val_def)
qed

lemma sh_parse_esc_byte:
  assumes "c \<noteq> NUL"
  shows "sh_parse InAnsi (esc_byte c @ t) = map_option ((#) c) (sh_parse InAnsi t)"
proof (cases "dollar_esc c")
  case (Some e)
  then show ?thesis
    by (auto simp: dollar_esc_def esc_byte_def ansi_named_def split: if_splits)
next
  case None
  then have e: "esc_byte c = [BSL, CHR ''x'', hexdigits ! (of_char c div 16), hexdigits ! (of_char c mod 16)]"
    by (auto simp: dollar_esc_def esc_byte_def split: if_splits)
  have h1: "hex_val (hexdigits ! (of_char c div 16)) = Some (of_char c div 16)"
    by (rule hex_val_digit [OF of_char_div16])
  have h2: "hex_val (hexdigits ! (of_char c mod 16)) = Some (of_char c mod 16)"
    by (rule hex_val_digit) simp
  have nz: "(of_char c :: nat) \<noteq> 0"
  proof
    assume "(of_char c :: nat) = 0"
    moreover have "(of_char NUL :: nat) = 0" by simp
    ultimately have "(of_char c :: nat) = of_char NUL" by simp
    then have "c = NUL" by (simp only: of_char_eq_iff)
    then show False using assms by simp
  qed
  have v: "16 * ((of_char c :: nat) div 16) + of_char c mod 16 = of_char c" by simp
  show ?thesis
    unfolding e using h1 h2 nz by (simp add: sh_byte_def v)
qed

lemma sh_parse_esc_bytes:
  "NUL \<notin> set xs \<Longrightarrow>
     sh_parse InAnsi (concat (map esc_byte xs) @ t) = map_option ((@) xs) (sh_parse InAnsi t)"
proof (induction xs)
  case Nil
  show ?case by (cases "sh_parse InAnsi t") simp_all
next
  case (Cons c xs)
  then have c: "c \<noteq> NUL"
    and ih: "sh_parse InAnsi (concat (map esc_byte xs) @ t) = map_option ((@) xs) (sh_parse InAnsi t)"
    by auto
  have "sh_parse InAnsi (concat (map esc_byte (c # xs)) @ t)
          = map_option ((#) c) (sh_parse InAnsi (concat (map esc_byte xs) @ t))"
    using sh_parse_esc_byte [OF c, of "concat (map esc_byte xs) @ t"] by simp
  then show ?case
    unfolding ih by (cases "sh_parse InAnsi t") simp_all
qed

lemma bytes_free_range:
  assumes "\<forall>j<len. str j \<noteq> NUL" and "i1 \<le> len"
  shows "NUL \<notin> set (bytes (ptr_add str i) (i1 - i))"
proof
  assume "NUL \<in> set (bytes (ptr_add str i) (i1 - i))"
  then obtain x where "x < i1 - i" and "str (i + x) = NUL" by (auto simp: set_bytes)
  moreover from this assms(2) have "i + x < len" by simp
  ultimately show False using assms(1) by blast
qed

lemma sh_parse_piece:
  assumes "\<forall>j<len. str j \<noteq> NUL" and "i < i1" and "i1 \<le> len"
  shows "sh_parse InAnsi (dollar_piece L str shell i wc i1 @ t)
           = map_option ((@) (bytes (ptr_add str i) (i1 - i))) (sh_parse InAnsi t)"
proof -
  define seg where "seg = bytes (ptr_add str i) (i1 - i)"
  have free: "NUL \<notin> set seg" unfolding seg_def using assms(1,3) by (rule bytes_free_range)
  show ?thesis
  proof (cases "(case wc of Some w \<Rightarrow> xiswprint L w shell | None \<Rightarrow> False) \<and> \<not> has_special str i i1")
    case True
    then have ns: "\<not> has_special str i i1" by simp
    have "\<forall>j<i1 - i. ptr_add str i j \<noteq> NUL" using assms(1,3) by auto
    then have n: "strnlen (ptr_add str i) (i1 - i) = i1 - i" by (rule strnlen_free)
    have p: "dollar_piece L str shell i wc i1 = seg"
      using True by (simp add: dollar_piece_def n seg_def)
    have "SQ \<notin> set seg \<and> BSL \<notin> set seg"
    proof (rule ccontr)
      assume "\<not> (SQ \<notin> set seg \<and> BSL \<notin> set seg)"
      then obtain x where "x < i1 - i" and "str (i + x) = SQ \<or> str (i + x) = BSL"
        by (auto simp: seg_def set_bytes)
      then have "\<exists>k. i \<le> k \<and> k < i1 \<and> (str k = SQ \<or> str k = BSL)"
        by (intro exI [of _ "i + x"]) auto
      with ns show False by (simp add: has_special_iff)
    qed
    then show ?thesis
      unfolding p seg_def [symmetric] by (simp add: sh_parse_ansi_verbatim)
  next
    case False
    then have p: "dollar_piece L str shell i wc i1 = concat (map esc_byte seg)"
      by (auto simp: dollar_piece_def seg_def)
    show ?thesis
      unfolding p seg_def [symmetric] using free by (rule sh_parse_esc_bytes)
  qed
qed

lemma xmbrtowc_within:
  assumes "decoder_ok L" and "i < len" and "\<forall>j<len. str j \<noteq> NUL"
    and "no_overrun L str len" and "xmbrtowc L i str len mb = (wc, i1, mb1)"
  shows "i < i1 \<and> i1 \<le> len"
proof -
  have adv: "i < i1" using xmbrtowc_advance [OF assms(1,2,3,5)] by simp
  define bs where "bs = bytes (ptr_add str i) (len - i)"
  obtain r mb' where r: "mbrtowc L bs mb = (r, mb')" by (cases "mbrtowc L bs mb")
  have "i1 \<le> len"
  proof (cases r)
    case MB_INVALID
    with r assms(2,5) show ?thesis by (auto simp: xmbrtowc_def bs_def)
  next
    case MB_INCOMPLETE
    have "i = 0"
    proof (rule ccontr)
      assume "i \<noteq> 0"
      then have "0 < i \<and> i < len" using assms(2) by simp
      with assms(4) have "fst (mbrtowc L bs mb) \<noteq> MB_INCOMPLETE"
        unfolding no_overrun_def bs_def by blast
      with r MB_INCOMPLETE show False by simp
    qed
    with MB_INCOMPLETE r assms(5) show ?thesis by (auto simp: xmbrtowc_def bs_def)
  next
    case (MB_OK w k)
    with r assms(5) have "wc \<noteq> None" by (auto simp: xmbrtowc_def bs_def)
    with xmbrtowc_advance [OF assms(1,2,3,5)] show ?thesis by simp
  qed
  with adv show ?thesis by simp
qed

lemma sh_parse_dollar_body:
  assumes "decoder_ok L" and "\<forall>j<len. str j \<noteq> NUL" and "no_overrun L str len" and "i \<le> len"
  shows "sh_parse InAnsi (dollar_body L str len shell i mb @ t)
           = map_option ((@) (bytes (ptr_add str i) (len - i))) (sh_parse InAnsi t)"
  using assms
proof (induction L str len shell i mb rule: dollar_body.induct)
  case (1 L str len shell i mb)
  show ?case
  proof (cases "i < len")
    case False
    with "1.prems"(4) have "len - i = 0" by simp
    moreover have "dollar_body L str len shell i mb = []"
      using False by (subst dollar_body.simps) simp
    ultimately show ?thesis by (cases "sh_parse InAnsi t") simp_all
  next
    case True
    obtain wc i1 mb1 where x: "xmbrtowc L i str len mb = (wc, i1, mb1)"
      by (cases "xmbrtowc L i str len mb")
    from xmbrtowc_within [OF "1.prems"(1) True "1.prems"(2,3) x]
    have adv: "i < i1" and within: "i1 \<le> len" by simp_all
    then have nle: "\<not> i1 \<le> i" by simp
    have body: "dollar_body L str len shell i mb
                  = dollar_piece L str shell i wc i1 @ dollar_body L str len shell i1 mb1"
      using True x nle by (subst dollar_body.simps) simp
    have ih: "sh_parse InAnsi (dollar_body L str len shell i1 mb1 @ t)
           = map_option ((@) (bytes (ptr_add str i1) (len - i1))) (sh_parse InAnsi t)"
      using "1.IH" [OF True x [symmetric] refl nle "1.prems"(1,2,3) within] .
    have split: "bytes (ptr_add str i) (len - i)
                   = bytes (ptr_add str i) (i1 - i) @ bytes (ptr_add str i1) (len - i1)"
      using bytes_split [of "i1 - i" "len - i" "ptr_add str i"] adv within by simp
    have "sh_parse InAnsi (dollar_body L str len shell i mb @ t)
            = map_option ((@) (bytes (ptr_add str i) (i1 - i)))
                (sh_parse InAnsi (dollar_body L str len shell i1 mb1 @ t))"
      unfolding body using sh_parse_piece [OF "1.prems"(2) adv within] by simp
    then show ?thesis
      unfolding ih split by (cases "sh_parse InAnsi t") simp_all
  qed
qed

lemma strcspn_prefix:
  assumes "is_cstring str" and "strcspn str reject = Some c"
  shows "\<forall>j<c. str j \<notin> set reject"
proof -
  from strcspn_Some [OF assms(1), of reject] obtain c' where
    "strcspn str reject = Some c'" and "\<forall>j<c'. str j \<noteq> NUL \<and> str j \<notin> set reject"
    by blast
  with assms(2) show ?thesis by simp
qed

lemma is_bare_prefix:
  assumes "is_cstring str" and "is_bare str len True = Some True"
  shows "\<forall>j<len. str j \<notin> set bare_reject"
proof -
  from assms(2) obtain c where c: "strcspn str bare_reject = Some c" and "\<not> c < len"
    by (auto simp: is_bare_def bare_len_def split: bind_splits if_splits)
  with strcspn_prefix [OF assms(1) c] show ?thesis by auto
qed

lemma quotable_prefix:
  assumes "is_cstring str" and "quotable_len str len = Some len"
  shows "\<forall>j<len. str j \<notin> set quotable_reject"
proof -
  from assms(2) obtain c where c: "strcspn str quotable_reject = Some c" and "\<not> c < len"
    by (auto simp: quotable_len_def split: bind_splits if_splits)
  with strcspn_prefix [OF assms(1) c] show ?thesis by auto
qed

lemma plain_of_reject:
  "c \<notin> set bare_reject \<Longrightarrow> c \<noteq> CHR 0x09 \<Longrightarrow> c \<noteq> CHR 0x0A \<Longrightarrow> sh_plain c"
  by (auto simp: bare_reject_def sh_plain_def sh_special_def)

lemma sh_word_bare:
  assumes "\<forall>c\<in>set s. c \<notin> set bare_reject" and "s \<noteq> []" and "hd s \<noteq> CHR ''~''"
    and "CHR 0x09 \<notin> set s" and "CHR 0x0A \<notin> set s"
  shows "sh_word s = Some s"
proof -
  have plain: "\<forall>c\<in>set s. sh_plain c"
    using assms(1,4,5) by (auto intro!: plain_of_reject)
  obtain c cs where s: "s = c # cs" using assms(2) by (cases s) auto
  have "c \<noteq> CHR ''#''" using assms(1) s by (auto simp: bare_reject_def)
  moreover have "c \<noteq> CHR ''~''" using assms(3) s by simp
  ultimately have "sh_word s = sh_parse Unquoted (s @ [])" by (simp add: sh_word_def s)
  also have "\<dots> = Some s" unfolding sh_parse_plain [OF plain] by simp
  finally show ?thesis .
qed

lemma sh_word_double:
  assumes "\<forall>c\<in>set s. c \<notin> set quotable_reject"
  shows "sh_word (DQ # s @ [DQ]) = Some s"
proof -
  have ok: "\<forall>c\<in>set s. c \<noteq> DQ \<and> c \<noteq> BSL \<and> c \<noteq> CHR ''$'' \<and> c \<noteq> CHR ''`''"
    using assms by (auto simp: quotable_reject_def)
  have "sh_word (DQ # s @ [DQ]) = sh_parse InDouble (s @ [DQ])" by (simp add: sh_word_def)
  also have "\<dots> = Some s" unfolding sh_parse_double [OF ok] by simp
  finally show ?thesis .
qed

lemma sh_word_single: "s \<noteq> [] \<Longrightarrow> sh_word (sq_spec s) = Some s"
proof -
  assume "s \<noteq> []"
  then obtain c cs where s: "s = c # cs" by (cases s) auto
  have "sh_word (sq_spec s) = sh_parse Unquoted (sq_spec s)"
    by (simp add: sh_word_def sq_spec_def s)
  also have "\<dots> = Some s"
    using sh_parse_single_quoted [of False s] by (simp add: sq_spec_def)
  finally show ?thesis .
qed

lemma sh_word_dollar:
  assumes "decoder_ok L" and "\<forall>j<len. str j \<noteq> NUL" and "no_overrun L str len"
  shows "sh_word ([CHR ''$'', SQ] @ dollar_body L str len shell 0 mb @ [SQ]) = Some (bytes str len)"
proof -
  have "sh_word ([CHR ''$'', SQ] @ dollar_body L str len shell 0 mb @ [SQ])
          = sh_parse InAnsi (dollar_body L str len shell 0 mb @ [SQ])"
    by (simp add: sh_word_def)
  also have "\<dots> = Some (bytes str len)"
    unfolding sh_parse_dollar_body [OF assms le0] by simp
  finally show ?thesis .
qed

lemma quoted_parses:
  assumes "decoder_ok L" and "is_cstring str" and "no_overrun L str (strnlen str n)"
    and "quoted L str n True = bytes str (strnlen str n) \<longrightarrow>
           hd (bytes str (strnlen str n)) \<noteq> CHR ''~'' \<and>
           CHR 0x09 \<notin> set (bytes str (strnlen str n)) \<and>
           CHR 0x0A \<notin> set (bytes str (strnlen str n))"
  shows "sh_word (quoted L str n True) = Some (bytes str (strnlen str n))"
proof -
  define len where "len = strnlen str n"
  define s where "s = bytes str len"
  have free: "\<forall>j<len. str j \<noteq> NUL" by (simp add: len_def strnlen_nonzero)
  have sset: "\<And>c. c \<in> set s \<Longrightarrow> \<exists>j<len. c = str j" by (auto simp: s_def set_bytes)
  obtain p where p: "printable_len L str len True = Some p"
    using printable_len_Some [OF assms(1) free] by blast
  show ?thesis
  proof (cases "p < len")
    case True
    have q: "quoted L str n True = [CHR ''$'', SQ] @ dollar_body L str len True 0 (mb_zero L) @ [SQ]"
      using p True by (simp add: quoted_def Let_def len_def [symmetric])
    show ?thesis
      unfolding q len_def [symmetric]
      using sh_word_dollar [OF assms(1) free] assms(3) by (simp add: len_def)
  next
    case False
    obtain b where b: "is_bare str len True = Some b"
      using is_bare_Some [OF assms(2)] by blast
    show ?thesis
    proof (cases b)
      case True
      have q: "quoted L str n True = (if s = [] then [DQ, DQ] else s)"
        using p False b True by (simp add: quoted_def Let_def len_def [symmetric] s_def)
      show ?thesis
      proof (cases "s = []")
        case True
        then show ?thesis unfolding q len_def [symmetric] s_def [symmetric]
          by (simp add: sh_word_def)
      next
        case ne: False
        with q have "quoted L str n True = s" by simp
        with assms(4) have h: "hd s \<noteq> CHR ''~''" "CHR 0x09 \<notin> set s" "CHR 0x0A \<notin> set s"
          by (simp_all add: s_def len_def)
        have "\<forall>j<len. str j \<notin> set bare_reject"
          using is_bare_prefix [OF assms(2)] b True by simp
        then have "\<forall>c\<in>set s. c \<notin> set bare_reject" using sset by blast
        from sh_word_bare [OF this ne h] show ?thesis
          unfolding q len_def [symmetric] s_def [symmetric] using ne by simp
      qed
    next
      case nb: False
      have pos: "0 < len"
      proof (rule ccontr)
        assume "\<not> 0 < len"
        with b have "b" by (auto dest: is_bare_zero)
        with nb show False by simp
      qed
      obtain ql where ql: "quotable_len str len = Some ql"
        using quotable_len_Some [OF assms(2)] by blast
      show ?thesis
      proof (cases "ql = len")
        case True
        have q: "quoted L str n True = DQ # s @ [DQ]"
          using p False b nb ql True by (simp add: quoted_def Let_def len_def [symmetric] s_def)
        have "\<forall>j<len. str j \<notin> set quotable_reject"
          using quotable_prefix [OF assms(2)] ql True by simp
        then have "\<forall>c\<in>set s. c \<notin> set quotable_reject" using sset by blast
        from sh_word_double [OF this] show ?thesis
          unfolding q len_def [symmetric] s_def [symmetric] .
      next
        case nq: False
        have q: "quoted L str n True = sq_spec s"
          using p False b nb ql nq by (simp add: quoted_def Let_def len_def [symmetric] s_def)
        have "s \<noteq> []" using pos by (metis s_def length_bytes length_0_conv less_numeral_extra(3))
        from sh_word_single [OF this] show ?thesis
          unfolding q len_def [symmetric] s_def [symmetric] .
      qed
    qed
  qed
qed

lemma c_locale_no_overrun: "no_overrun c_locale str len"
proof -
  have "fst (c_mbrtowc (bytes (ptr_add str i) (len - i)) mb) \<noteq> MB_INCOMPLETE" if "i < len" for i mb
  proof -
    from that have "bytes (ptr_add str i) (len - i) \<noteq> []"
      by (metis length_bytes length_0_conv zero_less_diff less_numeral_extra(3))
    then show ?thesis by (auto simp: c_mbrtowc_def split: list.splits)
  qed
  then show ?thesis by (simp add: no_overrun_def c_locale_def)
qed

subsection \<open>The round trip on the inputs that are quoted as intended\<close>

text \<open>
  For the shell flavor and a buffer with room for the quoted form and its terminator,
  the reader gives back the first \<^verbatim>\<open>strnlen(str, n)\<close> bytes of the input from the
  output of \<^verbatim>\<open>wordnesc\<close>, on the inputs where the decoder reports no incomplete
  sequence past offset 0 and a word that is left bare does not begin with a tilde and
  holds no tab or newline. The inputs left out include those of the defects shown below.
\<close>

lemma shell_round_trip:
  assumes "decoder_ok L" and "is_cstring str" and "no_overrun L str (strnlen str n)"
    and "quoted L str n True = bytes str (strnlen str n) \<longrightarrow>
           hd (bytes str (strnlen str n)) \<noteq> CHR ''~'' \<and>
           CHR 0x09 \<notin> set (bytes str (strnlen str n)) \<and>
           CHR 0x0A \<notin> set (bytes str (strnlen str n))"
    and "dest + length (quoted L str n True) < end"
  shows "\<exists>m' r. wordnesc L (m, dest) end str n True = Some (m', r) \<and> m' r = NUL \<and>
           sh_word (peek m' dest (r - dest)) = Some (bytes str (strnlen str n))"
proof -
  define q where "q = quoted L str n True"
  obtain m' r where mr: "put (m, dest) end q = (m', r)" by (cases "put (m, dest) end q")
  have le: "dest \<le> end" using assms(5) by simp
  have w: "wordnesc L (m, dest) end str n True = Some (m', r)"
    using wordnesc_quoted [OF assms(1,2), of "(m, dest)" "end" n True] le mr by (simp add: q_def)
  have fit: "dest + length q < end" using assms(5) by (simp add: q_def)
  from put_fits [OF fit mr]
  have r: "r = dest + length q" and pk: "peek m' dest (length q) = q" and z: "m' (dest + length q) = NUL"
    by simp_all
  have "sh_word q = Some (bytes str (strnlen str n))"
    unfolding q_def using assms(1,2,3,4) by (rule quoted_parses)
  with w r pk z show ?thesis by simp
qed

lemma shell_round_trip_hello:
  "decoder_ok c_locale \<and> is_cstring (cstr ''hello'') \<and>
   no_overrun c_locale (cstr ''hello'') 5 \<and>
   quoted c_locale (cstr ''hello'') SIZE_MAX True = ''hello'' \<and>
   (\<exists>m' r. wordnesc c_locale (blank, 0) 64 (cstr ''hello'') SIZE_MAX True = Some (m', r) \<and>
      m' r = NUL \<and> sh_word (peek m' 0 (r - 0)) = Some ''hello'')"
proof -
  have h1: "decoder_ok c_locale" by (rule c_locale_ok)
  have h2: "is_cstring (cstr ''hello'')" by (rule is_cstring_cstr)
  have len: "strnlen (cstr ''hello'') SIZE_MAX = 5" by (simp add: run_simps)
  have b: "bytes (cstr ''hello'') 5 = ''hello''" by (simp add: bytes.simps cstr_def ptr_add_def)
  have h3: "no_overrun c_locale (cstr ''hello'') (strnlen (cstr ''hello'') SIZE_MAX)"
    by (rule c_locale_no_overrun)
  have q: "quoted c_locale (cstr ''hello'') SIZE_MAX True = ''hello''"
    by (simp add: quoted_def run_simps c_locale_simps)
  have h4: "quoted c_locale (cstr ''hello'') SIZE_MAX True = bytes (cstr ''hello'') (strnlen (cstr ''hello'') SIZE_MAX) \<longrightarrow>
           hd (bytes (cstr ''hello'') (strnlen (cstr ''hello'') SIZE_MAX)) \<noteq> CHR ''~'' \<and>
           CHR 0x09 \<notin> set (bytes (cstr ''hello'') (strnlen (cstr ''hello'') SIZE_MAX)) \<and>
           CHR 0x0A \<notin> set (bytes (cstr ''hello'') (strnlen (cstr ''hello'') SIZE_MAX))"
    unfolding len b by simp
  have h5: "0 + length (quoted c_locale (cstr ''hello'') SIZE_MAX True) < 64"
    unfolding q by simp
  from shell_round_trip [OF h1 h2 h3 h4 h5, of blank]
  have "\<exists>m' r. wordnesc c_locale (blank, 0) 64 (cstr ''hello'') SIZE_MAX True = Some (m', r) \<and>
      m' r = NUL \<and> sh_word (peek m' 0 (r - 0)) = Some ''hello''"
    unfolding len b .
  with h1 h2 h3 q show ?thesis unfolding len by blast
qed

section \<open>The claims\<close>

subsection \<open>C1: the round trip through a shell\<close>

text \<open>
  C1 fails on the code. With \<^verbatim>\<open>WESC_SHELL\<close> set and room to spare, \<^verbatim>\<open>wordnesc\<close>
  copies the five bytes \<^verbatim>\<open>~root\<close> bare, because the tilde is missing from the reject
  set of \<^verbatim>\<open>bare_len\<close>; the shell expands a word that begins with a tilde, so the
  output does not read back as \<^verbatim>\<open>~root\<close>, where the single-quoted form would.
\<close>

theorem round_trip_fails_on_tilde:
  "strnlen (cstr ''~root'') SIZE_MAX = 5 \<and>
   outcome 0 6 (wordnesc c_locale (blank, 0) 64 (cstr ''~root'') SIZE_MAX True)
     = Some (''~root'' @ [NUL], 5) \<and>
   sh_word ''~root'' = None \<and>
   sh_word ([SQ] @ ''~root'' @ [SQ]) = Some ''~root''"
  by (simp add: run_simps c_locale_simps sh_word_def sh_special_def sh_plain_def)

subsection \<open>C2: the selection of the strategy\<close>

text \<open>
  C2. \<^verbatim>\<open>wordnesc\<close> runs the emitter that \<open>select_strategy\<close> names from the three
  scans of the first \<^verbatim>\<open>len = strnlen(str, n)\<close> bytes: dollar-quoting when
  \<^verbatim>\<open>printable_len < len\<close>, else the bare copy when the flavor is not the shell's or
  \<^verbatim>\<open>bare_len = len\<close>, else double quotes when \<^verbatim>\<open>quotable_len = len\<close>, else single
  quotes; what follows the emitter is only the fix-up for an output that is still empty.
\<close>

theorem strategy_selection:
  assumes "decoder_ok L" and "is_cstring str"
  shows "\<exists>p b q.
           printable_len L str (strnlen str n) shell = Some p \<and>
           bare_len str (strnlen str n) = Some b \<and>
           quotable_len str (strnlen str n) = Some q \<and>
           wordnesc L st end str n shell =
             map_option (\<lambda>st1. if snd st1 = snd st then xstpecpy st1 end (cstr [DQ, DQ]) else st1)
               (emitter (select_strategy (strnlen str n) p b q shell) L st end str (strnlen str n) shell)"
proof -
  define len where "len = strnlen str n"
  have free: "\<forall>j<len. str j \<noteq> NUL" by (simp add: len_def strnlen_nonzero)
  obtain p where p: "printable_len L str len shell = Some p"
    using printable_len_Some [OF assms(1) free] by blast
  obtain b where b: "bare_len str len = Some b"
    using bare_len_Some [OF assms(2)] by blast
  obtain q where q: "quotable_len str len = Some q"
    using quotable_len_Some [OF assms(2)] by blast
  have "wordnesc L st end str n shell =
          map_option (\<lambda>st1. if snd st1 = snd st then xstpecpy st1 end (cstr [DQ, DQ]) else st1)
            (emitter (select_strategy len p b q shell) L st end str len shell)"
    using p b q
    by (cases "dollar_quote L st end str len shell"; cases "single_quote st end str len")
       (auto simp: wordnesc_def Let_def len_def [symmetric] is_bare_def select_strategy_def)
  with p b q show ?thesis unfolding len_def by blast
qed

theorem strategy_selection_witness:
  "decoder_ok c_locale \<and> is_cstring (cstr ''a b'') \<and>
   printable_len c_locale (cstr ''a b'') 3 True = Some 3 \<and>
   bare_len (cstr ''a b'') 3 = Some 1 \<and>
   quotable_len (cstr ''a b'') 3 = Some 3 \<and>
   select_strategy 3 3 1 3 True = DoubleQuoted \<and>
   wordnesc c_locale (blank, 0) 64 (cstr ''a b'') SIZE_MAX True =
     Some (double_quote (blank, 0) 64 (cstr ''a b'') 3)"
proof -
  have h1: "decoder_ok c_locale" by (rule c_locale_ok)
  have h2: "is_cstring (cstr ''a b'')" by (rule is_cstring_cstr)
  have len: "strnlen (cstr ''a b'') SIZE_MAX = 3" by (simp add: run_simps)
  have p: "printable_len c_locale (cstr ''a b'') 3 True = Some 3"
    by (simp add: run_simps c_locale_simps)
  have b: "bare_len (cstr ''a b'') 3 = Some 1" by (simp add: run_simps)
  have q: "quotable_len (cstr ''a b'') 3 = Some 3" by (simp add: run_simps)
  have s: "select_strategy 3 3 1 3 True = DoubleQuoted" by (simp add: select_strategy_def)
  have d: "snd (double_quote (blank, 0) 64 (cstr ''a b'') 3) \<noteq> 0" by (simp add: run_simps)
  from strategy_selection [OF h1 h2, of SIZE_MAX True "(blank, 0)" 64]
  have "wordnesc c_locale (blank, 0) 64 (cstr ''a b'') SIZE_MAX True =
     Some (double_quote (blank, 0) 64 (cstr ''a b'') 3)"
    unfolding len p b q using s d by auto
  with h1 h2 p b q s show ?thesis by blast
qed

subsection \<open>C3: safety under truncation\<close>

text \<open>
  C3. With at least one byte of capacity, \<^verbatim>\<open>wordnesc\<close> returns; the cursor it returns
  lies between \<^verbatim>\<open>dest\<close> and \<^verbatim>\<open>end\<close>; no byte outside the region is changed;
  and a terminator stands inside the region, at the cursor or, when the cursor is
  \<^verbatim>\<open>end\<close>, in the last byte. The same holds of every call of \<^verbatim>\<open>xstpencpy\<close> whose
  cursor lies in the region.
\<close>

theorem truncation_safety:
  assumes "decoder_ok L" and "is_cstring str" and "dest < end"
  shows "(\<exists>m' r. wordnesc L (m, dest) end str n shell = Some (m', r) \<and>
            dest \<le> r \<and> r \<le> end \<and> (\<forall>a. a < dest \<or> end \<le> a \<longrightarrow> m' a = m a) \<and>
            (let t = (if r < end then r else end - 1) in dest \<le> t \<and> t < end \<and> m' t = NUL)) \<and>
         (\<forall>m0 d src k. dest \<le> d \<and> d \<le> end \<longrightarrow>
            (\<exists>m' r. xstpencpy (m0, d) end src k = (m', r) \<and>
               d \<le> r \<and> r \<le> end \<and> (\<forall>a. a < dest \<or> end \<le> a \<longrightarrow> m' a = m0 a) \<and>
               (let t = (if r < end then r else end - 1) in dest \<le> t \<and> t < end \<and> m' t = NUL)))"
proof (intro conjI allI impI)
  obtain m' r where mr: "put (m, dest) end (quoted L str n shell) = (m', r)"
    by (cases "put (m, dest) end (quoted L str n shell)")
  have w: "wordnesc L (m, dest) end str n shell = Some (m', r)"
    using wordnesc_quoted [OF assms(1,2), of "(m, dest)" "end" n shell] assms(3) mr by simp
  from put_safe [OF le_refl _ assms(3) mr] assms(3) w
  show "\<exists>m' r. wordnesc L (m, dest) end str n shell = Some (m', r) \<and>
            dest \<le> r \<and> r \<le> end \<and> (\<forall>a. a < dest \<or> end \<le> a \<longrightarrow> m' a = m a) \<and>
            (let t = (if r < end then r else end - 1) in dest \<le> t \<and> t < end \<and> m' t = NUL)"
    by simp
next
  fix m0 d src k
  assume d: "dest \<le> d \<and> d \<le> end"
  obtain m' r where mr: "put (m0, d) end (bytes src (strnlen src k)) = (m', r)"
    by (cases "put (m0, d) end (bytes src (strnlen src k))")
  have x: "xstpencpy (m0, d) end src k = (m', r)"
    using d mr by (simp add: xstpencpy_put)
  from d have d1: "dest \<le> d" and d2: "d \<le> end" by simp_all
  from put_safe [OF d1 d2 assms(3) mr] x
  show "\<exists>m' r. xstpencpy (m0, d) end src k = (m', r) \<and>
               d \<le> r \<and> r \<le> end \<and> (\<forall>a. a < dest \<or> end \<le> a \<longrightarrow> m' a = m0 a) \<and>
               (let t = (if r < end then r else end - 1) in dest \<le> t \<and> t < end \<and> m' t = NUL)"
    by simp
qed

theorem truncation_safety_witness:
  "decoder_ok c_locale \<and> is_cstring (cstr ''hello'') \<and> (2::nat) < 5 \<and>
   outcome 0 7 (wordnesc c_locale (blank, 2) 5 (cstr ''hello'') SIZE_MAX True)
     = Some (''##he'' @ [NUL] @ ''##'', 5)"
proof -
  have h1: "decoder_ok c_locale" by (rule c_locale_ok)
  have h2: "is_cstring (cstr ''hello'')" by (rule is_cstring_cstr)
  have h3: "(2::nat) < 5" by simp
  from truncation_safety [OF h1 h2 h3, of blank SIZE_MAX True]
  obtain m' r where "wordnesc c_locale (blank, 2) 5 (cstr ''hello'') SIZE_MAX True = Some (m', r)"
    by blast
  then have "\<exists>x. wordnesc c_locale (blank, 2) 5 (cstr ''hello'') SIZE_MAX True = Some x" by blast
  moreover have "outcome 0 7 (wordnesc c_locale (blank, 2) 5 (cstr ''hello'') SIZE_MAX True)
     = Some (''##he'' @ [NUL] @ ''##'', 5)"
    by (simp add: run_simps c_locale_simps)
  ultimately show ?thesis using h1 h2 by simp
qed

subsection \<open>C4: the scan for a bare word\<close>

text \<open>
  C4 fails on the code: the reject set holds the bytes 0xCB and 0x9C where the tilde
  should be, so \<^verbatim>\<open>bare_len\<close> passes over a tilde, stops at the byte 0xCB, and
  \<^verbatim>\<open>~root\<close> is copied bare.
\<close>

theorem bare_len_misses_tilde:
  "bare_len (cstr ''~root'') 5 = Some 5 \<and> CHR ''~'' \<notin> set bare_reject \<and>
   CHR 0xCB \<in> set bare_reject \<and> bare_len (cstr [CHR ''a'', CHR 0xCB, CHR ''b'']) 3 = Some 1 \<and>
   outcome 0 6 (wordesc c_locale (blank, 0) 64 (cstr ''~root'') True) = Some (''~root'' @ [NUL], 5)"
  by (simp add: run_simps c_locale_simps)

subsection \<open>C5: the progress of the decoder\<close>

text \<open>
  C5 fails on the code: on an incomplete sequence \<^verbatim>\<open>xmbrtowc\<close> adds \<^verbatim>\<open>len\<close> to the
  offset. At offset 1 of the two bytes \<^verbatim>\<open>a\<close>, 0xC3 the offset becomes 3.
\<close>

theorem xmbrtowc_incomplete_overrun:
  "mbrtowc utf8_locale (bytes (ptr_add (cstr [CHR ''a'', CHR 0xC3]) 1) (2 - 1)) () = (MB_INCOMPLETE, ()) \<and>
   xmbrtowc utf8_locale 1 (cstr [CHR ''a'', CHR 0xC3]) 2 () = (None, 3, ())"
  by (simp add: run_simps utf8_locale_simps)

subsection \<open>C6: the value returned\<close>

text \<open>
  C6, as the code has it. \<^verbatim>\<open>wordnesc\<close> returns a cursor, not a count: \<^verbatim>\<open>dest\<close> plus
  the length of the quoted form when that form and its terminator fit, and \<^verbatim>\<open>end\<close>
  otherwise. The quoted form is what a buffer that is large enough receives.
\<close>

theorem return_value_is_cursor:
  assumes "decoder_ok L" and "is_cstring str" and "dest < end"
  shows "map_option snd (wordnesc L (m, dest) end str n shell) =
           Some (if length (quoted L str n shell) < end - dest
                 then dest + length (quoted L str n shell) else end) \<and>
         (\<exists>m'. wordnesc L (m, dest) (dest + length (quoted L str n shell) + 1) str n shell =
                  Some (m', dest + length (quoted L str n shell)) \<and>
                peek m' dest (length (quoted L str n shell)) = quoted L str n shell \<and>
                m' (dest + length (quoted L str n shell)) = NUL)"
proof
  have "wordnesc L (m, dest) end str n shell = Some (put (m, dest) end (quoted L str n shell))"
    using wordnesc_quoted [OF assms(1,2), of "(m, dest)" "end" n shell] assms(3) by simp
  then show "map_option snd (wordnesc L (m, dest) end str n shell) =
           Some (if length (quoted L str n shell) < end - dest
                 then dest + length (quoted L str n shell) else end)"
    by (simp add: put_def)
next
  define q where "q = quoted L str n shell"
  obtain m' r where mr: "put (m, dest) (dest + length q + 1) q = (m', r)"
    by (cases "put (m, dest) (dest + length q + 1) q")
  have w: "wordnesc L (m, dest) (dest + length q + 1) str n shell = Some (m', r)"
    using wordnesc_quoted [OF assms(1,2), of "(m, dest)" "dest + length q + 1" n shell] mr
    by (simp add: q_def)
  have "dest + length q < dest + length q + 1" by simp
  from put_fits [OF this mr] w
  show "\<exists>m'. wordnesc L (m, dest) (dest + length (quoted L str n shell) + 1) str n shell =
                  Some (m', dest + length (quoted L str n shell)) \<and>
                peek m' dest (length (quoted L str n shell)) = quoted L str n shell \<and>
                m' (dest + length (quoted L str n shell)) = NUL"
    unfolding q_def by blast
qed

theorem return_value_is_cursor_witness:
  "decoder_ok c_locale \<and> is_cstring (cstr ''hello'') \<and> (0::nat) < 3 \<and>
   quoted c_locale (cstr ''hello'') SIZE_MAX True = ''hello'' \<and>
   map_option snd (wordnesc c_locale (blank, 0) 3 (cstr ''hello'') SIZE_MAX True) = Some 3"
proof -
  have h1: "decoder_ok c_locale" by (rule c_locale_ok)
  have h2: "is_cstring (cstr ''hello'')" by (rule is_cstring_cstr)
  have h3: "(0::nat) < 3" by simp
  have q: "quoted c_locale (cstr ''hello'') SIZE_MAX True = ''hello''"
    by (simp add: quoted_def run_simps c_locale_simps)
  from return_value_is_cursor [OF h1 h2 h3, of blank SIZE_MAX True]
  have "map_option snd (wordnesc c_locale (blank, 0) 3 (cstr ''hello'') SIZE_MAX True) = Some 3"
    unfolding q by simp
  with h1 h2 q show ?thesis by simp
qed

text \<open>
  C6 as stated fails: in three bytes the call on \<^verbatim>\<open>hello\<close> returns the cursor 3,
  where five bytes would have been written to a buffer with room for them.
\<close>

theorem return_value_counterexample:
  "map_option snd (wordesc c_locale (blank, 0) 3 (cstr ''hello'') True) = Some 3 \<and>
   outcome 0 6 (wordesc c_locale (blank, 0) 64 (cstr ''hello'') True) = Some (''hello'' @ [NUL], 5)"
  by (simp add: run_simps c_locale_simps)

subsection \<open>C7: the dollar-quoted encoding\<close>

text \<open>
  C7 fails on the code, by the same addition: for the two bytes 0x01, 0xC3 the emitter
  also escapes the terminator that follows them.
\<close>

theorem dollar_quote_emits_past_len:
  "outcome 0 16 (dollar_quote utf8_locale (blank, 0) 64 (cstr [CHR 0x01, CHR 0xC3]) 2 True)
     = Some ([CHR ''$'', SQ, BSL, CHR ''x'', CHR ''0'', CHR ''1'', BSL, CHR ''x'', CHR ''C'', CHR ''3'',
              BSL, CHR ''x'', CHR ''0'', CHR ''0'', SQ, NUL], 15)"
  by (simp add: run_simps utf8_locale_simps)

subsection \<open>C8: the single-quoted encoding\<close>

text \<open>
  C8. On bytes free of zero bytes, \<^verbatim>\<open>single_quote\<close> does what writing \<open>sq_spec\<close> of
  those bytes through the bounded writer does (and writes nothing for no bytes); that
  text reads back, as closed runs and backslash-quote tokens, to the bytes themselves;
  and \<^verbatim>\<open>it's\<close> is rendered as \<^verbatim>\<open>'it'\''s'\<close>.
\<close>

theorem single_quoted_encoding:
  assumes "snd st \<le> end" and "is_cstring str" and "\<forall>j<len. str j \<noteq> NUL"
  shows "single_quote st end str len =
           Some (if len = 0 then st else write_bytes st end (sq_spec (bytes str len))) \<and>
         sq_read False (sq_spec (bytes str len)) = Some (bytes str len) \<and>
         outcome 0 10 (single_quote (blank, 0) 64 (cstr (''it'' @ [SQ] @ ''s'')) 4)
           = Some ([SQ] @ ''it'' @ [SQ, BSL, SQ, SQ] @ ''s'' @ [SQ, NUL], 9)"
proof (intro conjI)
  have "NUL \<notin> set (bytes str len)" using assms(3) by (auto simp: set_bytes)
  then have "NUL \<notin> set (sq_spec (bytes str len))" by (rule sq_spec_free)
  then show "single_quote st end str len =
           Some (if len = 0 then st else write_bytes st end (sq_spec (bytes str len)))"
    using single_quote_run [OF assms] assms(1) by (simp add: write_bytes_put')
  show "sq_read False (sq_spec (bytes str len)) = Some (bytes str len)"
    unfolding sq_spec_def by (rule sq_read_out)
  show "outcome 0 10 (single_quote (blank, 0) 64 (cstr (''it'' @ [SQ] @ ''s'')) 4)
           = Some ([SQ] @ ''it'' @ [SQ, BSL, SQ, SQ] @ ''s'' @ [SQ, NUL], 9)"
    by (simp add: run_simps)
qed

theorem single_quoted_encoding_witness:
  "snd (blank, 0::nat) \<le> 64 \<and> is_cstring (cstr ''a b'') \<and>
   single_quote (blank, 0) 64 (cstr ''a b'') 3
     = Some (write_bytes (blank, 0) 64 ([SQ] @ ''a b'' @ [SQ])) \<and>
   sq_read False ([SQ] @ ''a b'' @ [SQ]) = Some ''a b''"
proof -
  have h1: "snd (blank, 0::nat) \<le> 64" by simp
  have h2: "is_cstring (cstr ''a b'')" by (rule is_cstring_cstr)
  have h3: "\<forall>j<3. cstr ''a b'' j \<noteq> NUL" by (intro allI impI cstr_nonzero) simp_all
  have b: "bytes (cstr ''a b'') 3 = ''a b''" by (simp add: bytes.simps cstr_def ptr_add_def)
  have s: "sq_spec ''a b'' = [SQ] @ ''a b'' @ [SQ]" by (simp add: sq_spec_def)
  from single_quoted_encoding [OF h1 h2 h3]
  have "single_quote (blank, 0) 64 (cstr ''a b'') 3
          = Some (write_bytes (blank, 0) 64 ([SQ] @ ''a b'' @ [SQ])) \<and>
        sq_read False ([SQ] @ ''a b'' @ [SQ]) = Some ''a b''"
    unfolding b s by simp
  with h1 h2 show ?thesis by simp
qed

subsection \<open>C9: the empty input\<close>

text \<open>
  C9. On an input of considered length 0, \<^verbatim>\<open>wordnesc\<close> does what writing the two
  bytes \<^verbatim>\<open>""\<close> through the bounded writer does, for either flavor; a region of three
  bytes then holds exactly \<^verbatim>\<open>""\<close> and its terminator.
\<close>

theorem empty_input:
  assumes "is_cstring str" and "strnlen str n = 0" and "dest < end"
  shows "wordnesc L (m, dest) end str n shell = Some (write_bytes (m, dest) end [DQ, DQ]) \<and>
         (\<exists>m'. wordnesc L (m, dest) (dest + 3) str n shell = Some (m', dest + 2) \<and>
                peek m' dest 3 = [DQ, DQ, NUL])"
proof -
  obtain b where b: "is_bare str 0 shell = Some b"
    using is_bare_Some [OF assms(1)] by blast
  then have bt: "b" by (rule is_bare_zero)
  have gen: "wordnesc L (m, dest) e str n shell = Some (put (m, dest) e [DQ, DQ])" if "dest \<le> e" for e
  proof -
    have x: "xstpencpy (m, dest) e str 0 = put (m, dest) e []"
      using that by (simp add: xstpencpy_put_free)
    show ?thesis
      using b bt x that fixup_put [of "(m, dest)" e "[]"]
      by (simp add: wordnesc_def assms(2) printable_len_zero)
  qed
  have 1: "wordnesc L (m, dest) end str n shell = Some (write_bytes (m, dest) end [DQ, DQ])"
    using gen [of "end"] assms(3) by (simp add: write_bytes_put)
  define m' where "m' = fst (put (m, dest) (dest + 3) [DQ, DQ])"
  have mr: "put (m, dest) (dest + 3) [DQ, DQ] = (m', dest + 2)"
    by (simp add: m'_def put_def)
  have "peek m' dest 3 = [DQ, DQ, NUL]"
    by (simp add: m'_def put_def peek_def bytes.simps ptr_add_def)
  with gen [of "dest + 3"] mr 1 show ?thesis by simp
qed

theorem empty_input_witness:
  "is_cstring (cstr []) \<and> strnlen (cstr []) SIZE_MAX = 0 \<and> (0::nat) < 64 \<and>
   outcome 0 3 (wordnesc c_locale (blank, 0) 64 (cstr []) SIZE_MAX True) = Some ([DQ, DQ, NUL], 2)"
proof -
  have h1: "is_cstring (cstr [])" by (rule is_cstring_cstr)
  have h2: "strnlen (cstr []) SIZE_MAX = 0" by (simp add: run_simps)
  have h3: "(0::nat) < 64" by simp
  from empty_input [OF h1 h2 h3, of c_locale blank True]
  have "wordnesc c_locale (blank, 0) 64 (cstr []) SIZE_MAX True
          = Some (write_bytes (blank, 0) 64 [DQ, DQ])"
    by blast
  then have "outcome 0 3 (wordnesc c_locale (blank, 0) 64 (cstr []) SIZE_MAX True)
          = Some ([DQ, DQ, NUL], 2)"
    by (simp add: write_bytes_def run_simps)
  with h1 h2 show ?thesis by simp
qed

subsection \<open>C10: the termination of the single-quote emitter\<close>

text \<open>
  C10. For a C string whose first \<open>len\<close> bytes hold no zero byte, \<^verbatim>\<open>single_quote\<close>
  returns, whatever the cursor; one pass of its outer loop leaves a remaining length
  smaller than the one it began with; and the length \<^verbatim>\<open>wordnesc\<close> passes,
  \<^verbatim>\<open>strnlen(str, n)\<close>, never reaches past a zero byte.
\<close>

theorem single_quote_terminates:
  assumes "is_cstring str" and "\<forall>j<len. str j \<noteq> NUL"
  shows "(\<exists>r. single_quote st end str len = Some r) \<and>
         (0 < len \<longrightarrow>
            (\<exists>c. strcspn str [SQ] = Some c \<and>
               snd (snd (snd (single_quote_quotes
                 (single_quote_chunk (st, opn, str, len) end (if c < len then c else len)) end))) < len)) \<and>
         (\<forall>j<strnlen str n. str j \<noteq> NUL)"
proof (intro conjI impI)
  obtain r where "single_quote_loop (st, False, str, len) end = Some r"
    using single_quote_loop_terminates [OF assms] by blast
  then show "\<exists>r. single_quote st end str len = Some r"
    by (cases r) (auto simp: single_quote_def)
next
  assume pos: "0 < len"
  from single_quote_step_decreases [OF assms pos, of st opn "end"]
  obtain c st' opn' d where "strcspn str [SQ] = Some c"
    and "single_quote_quotes (single_quote_chunk (st, opn, str, len) end (if c < len then c else len)) end
             = (st', opn', ptr_add str d, len - d)"
    and "0 < d" "d \<le> len"
    by blast
  then show "\<exists>c. strcspn str [SQ] = Some c \<and>
               snd (snd (snd (single_quote_quotes
                 (single_quote_chunk (st, opn, str, len) end (if c < len then c else len)) end))) < len"
    using pos by (intro exI [of _ c]) simp
next
  show "\<forall>j<strnlen str n. str j \<noteq> NUL" by (simp add: strnlen_nonzero)
qed

theorem single_quote_terminates_witness:
  "is_cstring (cstr (''it'' @ [SQ] @ ''s'')) \<and>
   (\<exists>r. single_quote (blank, 0) 64 (cstr (''it'' @ [SQ] @ ''s'')) 4 = Some r) \<and>
   strcspn (cstr (''it'' @ [SQ] @ ''s'')) [SQ] = Some 2 \<and>
   snd (snd (snd (single_quote_quotes
     (single_quote_chunk ((blank, 0), False, cstr (''it'' @ [SQ] @ ''s''), 4) 64 2) 64))) = 1"
proof -
  have h1: "is_cstring (cstr (''it'' @ [SQ] @ ''s''))" by (rule is_cstring_cstr)
  have h2: "\<forall>j<4. cstr (''it'' @ [SQ] @ ''s'') j \<noteq> NUL"
    by (intro allI impI cstr_nonzero) simp_all
  from single_quote_terminates [OF h1 h2, of "(blank, 0)" 64 False 0]
  have "\<exists>r. single_quote (blank, 0) 64 (cstr (''it'' @ [SQ] @ ''s'')) 4 = Some r" by blast
  moreover have "strcspn (cstr (''it'' @ [SQ] @ ''s'')) [SQ] = Some 2"
    by (simp add: run_simps)
  moreover have "snd (snd (snd (single_quote_quotes
     (single_quote_chunk ((blank, 0), False, cstr (''it'' @ [SQ] @ ''s''), 4) 64 2) 64))) = 1"
    by (simp add: run_simps)
  ultimately show ?thesis using h1 by blast
qed

end
